theory Spec2Isabelle
  imports Complex_Main
begin

section \<open>The numpy fragment used by mdp.py\<close>

text \<open>
  The program computes with numpy float64 arrays. A float is modelled as an ideal real
  number; the three special values of IEEE arithmetic (the two infinities and NaN) are
  added where the program divides and where it exponentiates: numpy's array division by
  zero raises no exception, it yields inf or nan, and \<open>np.exp\<close> yields inf when its result
  exceeds the largest double. Rounding, underflow, the overflow of sums and products and
  the sign of zero are not modelled. Exceptions are values of \<open>py_error\<close>.
\<close>

datatype py_error = TypeError | ValueError | IndexError

datatype npfloat = Fin real | PInf | NInf | NaN

text \<open>
  A numpy array either is sized (it has one dimension or more, a length, and can be
  indexed) or has dimension 0: \<open>np.array(None)\<close> is an array of dimension 0 that holds the
  one object \<open>None\<close>. \<open>len\<close> of such an array raises TypeError, indexing it raises
  IndexError.
\<close>

datatype 'a ndarray = Unsized | Array "'a list"

text \<open>\<open>len(a)\<close>.\<close>

fun np_len :: "'a ndarray \<Rightarrow> py_error + nat" where
  "np_len Unsized = Inl TypeError"
| "np_len (Array xs) = Inr (length xs)"

text \<open>
  The elements along the first axis. An array of dimension 0 has none, so that indexing
  its elements raises IndexError for every index, as numpy does for the array.
\<close>

fun elems :: "'a ndarray \<Rightarrow> 'a list" where
  "elems Unsized = []"
| "elems (Array xs) = xs"

text \<open>Indexing \<open>xs[i]\<close> with a Python integer: a negative index counts from the end.\<close>

definition np_index :: "'a list \<Rightarrow> int \<Rightarrow> py_error + 'a" where
  "np_index xs i =
     (if 0 \<le> i \<and> i < int (length xs) then Inr (xs ! nat i)
      else if i < 0 \<and> - int (length xs) \<le> i then Inr (xs ! nat (int (length xs) + i))
      else Inl IndexError)"

text \<open>\<open>np.max\<close> of a one-dimensional array; the empty array raises ValueError.\<close>

definition np_max :: "real list \<Rightarrow> py_error + real" where
  "np_max xs = (case xs of [] \<Rightarrow> Inl ValueError | x # ys \<Rightarrow> Inr (fold max ys x))"

text \<open>\<open>np.dot\<close> of two vectors, and of a matrix (a list of rows) with a vector.\<close>

definition vdot :: "real list \<Rightarrow> real list \<Rightarrow> real" where
  "vdot xs ys = sum_list (map2 (*) xs ys)"

definition np_dot :: "real list list \<Rightarrow> real list \<Rightarrow> py_error + real list" where
  "np_dot rows v =
     (if list_all (\<lambda>row. length row = length v) rows then Inr (map (\<lambda>row. vdot row v) rows)
      else Inl ValueError)"

text \<open>\<open>np.arange(n)\<close> for a natural number \<open>n\<close>.\<close>

definition np_arange :: "nat \<Rightarrow> int list" where
  "np_arange n = map int [0..<n]"

text \<open>
  Array arithmetic on floats with the special values. Finite operands behave as reals;
  a finite number divided by zero is an infinity of its sign, zero by zero is NaN.
\<close>

fun np_div :: "npfloat \<Rightarrow> npfloat \<Rightarrow> npfloat" where
  "np_div (Fin x) (Fin y) =
     (if y \<noteq> 0 then Fin (x / y) else if x = 0 then NaN else if 0 < x then PInf else NInf)"
| "np_div (Fin x) PInf = Fin 0"
| "np_div (Fin x) NInf = Fin 0"
| "np_div PInf (Fin y) = (if 0 \<le> y then PInf else NInf)"
| "np_div NInf (Fin y) = (if 0 \<le> y then NInf else PInf)"
| "np_div _ _ = NaN"

fun np_mul :: "npfloat \<Rightarrow> npfloat \<Rightarrow> npfloat" where
  "np_mul (Fin x) (Fin y) = Fin (x * y)"
| "np_mul NaN _ = NaN"
| "np_mul _ NaN = NaN"
| "np_mul (Fin x) PInf = (if x = 0 then NaN else if 0 < x then PInf else NInf)"
| "np_mul (Fin x) NInf = (if x = 0 then NaN else if 0 < x then NInf else PInf)"
| "np_mul PInf (Fin y) = (if y = 0 then NaN else if 0 < y then PInf else NInf)"
| "np_mul NInf (Fin y) = (if y = 0 then NaN else if 0 < y then NInf else PInf)"
| "np_mul PInf PInf = PInf"
| "np_mul NInf NInf = PInf"
| "np_mul PInf NInf = NInf"
| "np_mul NInf PInf = NInf"

fun np_add :: "npfloat \<Rightarrow> npfloat \<Rightarrow> npfloat" where
  "np_add (Fin x) (Fin y) = Fin (x + y)"
| "np_add NaN _ = NaN"
| "np_add _ NaN = NaN"
| "np_add PInf NInf = NaN"
| "np_add NInf PInf = NaN"
| "np_add PInf _ = PInf"
| "np_add _ PInf = PInf"
| "np_add NInf _ = NInf"
| "np_add _ NInf = NInf"

text \<open>
  \<open>np.exp\<close>. The largest double is \<open>(2 - 2 ** -52) * 2 ** 1023\<close>; an exponential above it
  (an argument above about 709.78) overflows to inf, with a warning and no exception.
\<close>

definition float_max :: real where
  "float_max = (2 - 1 / 2 ^ 52) * 2 ^ 1023"

fun np_exp :: "npfloat \<Rightarrow> npfloat" where
  "np_exp (Fin x) = (if float_max < exp x then PInf else Fin (exp x))"
| "np_exp PInf = PInf"
| "np_exp NInf = Fin 0"
| "np_exp NaN = NaN"

text \<open>\<open>ndarray.sum()\<close>; the empty sum is 0.\<close>

fun np_sum :: "npfloat list \<Rightarrow> npfloat" where
  "np_sum [] = Fin 0"
| "np_sum (x # xs) = np_add x (np_sum xs)"

text \<open>
  \<open>np.arange(start, stop, step)\<close> and \<open>np.linspace(start, stop, num)\<close> on reals:
  arange has \<open>ceil((stop - start) / step)\<close> points \<open>start + i * step\<close>; linspace has
  \<open>num\<close> points from \<open>start\<close> to \<open>stop\<close>, both included.
\<close>

definition np_arange_step :: "real \<Rightarrow> real \<Rightarrow> real \<Rightarrow> real list" where
  "np_arange_step start stop step =
     map (\<lambda>i. start + real i * step) [0..<nat \<lceil>(stop - start) / step\<rceil>]"

definition np_linspace :: "real \<Rightarrow> real \<Rightarrow> nat \<Rightarrow> real list" where
  "np_linspace start stop num =
     (if num = 1 then [start]
      else map (\<lambda>i. start + real i * ((stop - start) / real (num - 1))) [0..<num])"

text \<open>
  Elementwise product of two one-dimensional arrays with numpy's broadcasting: equal
  lengths, or one of them of length 1; any other pair of shapes raises ValueError.
\<close>

definition np_multiply :: "npfloat list \<Rightarrow> npfloat list \<Rightarrow> py_error + npfloat list" where
  "np_multiply xs ys =
     (if length xs = length ys then Inr (map2 np_mul xs ys)
      else if length xs = 1 then Inr (map (np_mul (hd xs)) ys)
      else if length ys = 1 then Inr (map (\<lambda>x. np_mul x (hd ys)) xs)
      else Inl ValueError)"

section \<open>class MDP\<close>

text \<open>
  The attributes \<open>s\<close>, \<open>a\<close>, \<open>r\<close> and \<open>t\<close> of the class are numpy arrays, the fields
  \<open>s_array\<close>, \<open>a_array\<close>, \<open>r_array\<close> and \<open>t_array\<close>; \<open>t\<close> is the tensor indexed state,
  action, next state. The attributes \<open>values\<close> and \<open>policy\<close> carry the prefix \<open>mdp_\<close>.
\<close>

record mdp =
  s_array :: "int ndarray"
  a_array :: "int ndarray"
  r_array :: "real ndarray"
  t_array :: "real list list ndarray"
  discount :: real
  mdp_values :: "real list option"
  mdp_policy :: "npfloat list list option"

text \<open>
  \<open>mdp_s m\<close>, \<open>mdp_a m\<close>, \<open>mdp_r m\<close> and \<open>mdp_t m\<close> stand for the elements of the four
  arrays, which is what \<open>self.r[i]\<close> and \<open>self.t[i]\<close> index.
\<close>

abbreviation mdp_s :: "'z mdp_scheme \<Rightarrow> int list" where
  "mdp_s m \<equiv> elems (s_array m)"

abbreviation mdp_a :: "'z mdp_scheme \<Rightarrow> int list" where
  "mdp_a m \<equiv> elems (a_array m)"

abbreviation mdp_r :: "'z mdp_scheme \<Rightarrow> real list" where
  "mdp_r m \<equiv> elems (r_array m)"

abbreviation mdp_t :: "'z mdp_scheme \<Rightarrow> real list list list" where
  "mdp_t m \<equiv> elems (t_array m)"

text \<open>
  \<open>MDP.__init__\<close> with its default arguments (all \<open>None\<close>): each of the four arrays is
  \<open>np.array(None)\<close>, of dimension 0; the discount is .95, values and policy are \<open>None\<close>.
  \<open>BettingGame\<close> calls it so and assigns the four arrays afterwards.
\<close>

definition MDP_init :: "'z \<Rightarrow> 'z mdp_scheme" where
  "MDP_init z = \<lparr>s_array = Unsized, a_array = Unsized, r_array = Unsized, t_array = Unsized,
                 discount = 95 / 100, mdp_values = None, mdp_policy = None, \<dots> = z\<rparr>"

definition getTransitionStatesAndProbs :: "'z mdp_scheme \<Rightarrow> int \<Rightarrow> int \<Rightarrow> py_error + real list" where
  "getTransitionStatesAndProbs m state action =
     (case np_index (mdp_t m) state of
        Inl e \<Rightarrow> Inl e
      | Inr ts \<Rightarrow> np_index ts action)"

definition getReward :: "'z mdp_scheme \<Rightarrow> int \<Rightarrow> py_error + real" where
  "getReward m state = np_index (mdp_r m) state"

subsection \<open>valueIteration\<close>

text \<open>
  The right-hand side of the assignment in the sweep:
  \<open>self.r[i] + np.max(self.discount * np.dot(self.t[i][:][:], self.values))\<close>.
\<close>

definition backup :: "'z mdp_scheme \<Rightarrow> real list \<Rightarrow> nat \<Rightarrow> py_error + real" where
  "backup m V i =
     (case np_index (mdp_r m) (int i) of
        Inl e \<Rightarrow> Inl e
      | Inr ri \<Rightarrow>
          (case np_index (mdp_t m) (int i) of
             Inl e \<Rightarrow> Inl e
           | Inr ti \<Rightarrow>
               (case np_dot ti V of
                  Inl e \<Rightarrow> Inl e
                | Inr d \<Rightarrow>
                    (case np_max (map (\<lambda>x. discount m * x) d) of
                       Inl e \<Rightarrow> Inl e
                     | Inr mx \<Rightarrow> Inr (ri + mx)))))"

text \<open>The \<open>for\<close> loop over the state indices: each value is overwritten in place.\<close>

fun sweep :: "'z mdp_scheme \<Rightarrow> nat list \<Rightarrow> real list \<Rightarrow> py_error + real list" where
  "sweep m [] V = Inr V"
| "sweep m (i # rest) V =
     (case backup m V i of
        Inl e \<Rightarrow> Inl e
      | Inr v \<Rightarrow> if i < length V then sweep m rest (V[i := v]) else Inl IndexError)"

text \<open>\<open>np.max(np.abs(self.values - oldValues))\<close>, both arrays of the same length.\<close>

definition max_abs_diff :: "real list \<Rightarrow> real list \<Rightarrow> py_error + real" where
  "max_abs_diff V W = np_max (map2 (\<lambda>x y. \<bar>x - y\<bar>) V W)"

text \<open>
  The \<open>while True\<close> loop. It has no bound on the number of sweeps, so it is a partial
  function: \<open>None\<close> is the loop that never breaks. The loop is entered after
  \<open>len(self.s)\<close> has returned, with an array \<open>s\<close> that has a length.
\<close>

partial_function (option) vi_loop ::
  "'z mdp_scheme \<Rightarrow> real \<Rightarrow> real list \<Rightarrow> (py_error + real list) option" where
  "vi_loop m epsilon V =
     (case sweep m [0..<length (mdp_s m) - 1] V of
        Inl e \<Rightarrow> Some (Inl e)
      | Inr V' \<Rightarrow>
          (case max_abs_diff V' V of
             Inl e \<Rightarrow> Some (Inl e)
           | Inr d \<Rightarrow> if d \<le> epsilon then Some (Inr V') else vi_loop m epsilon V'))"

text \<open>
  An argument left out is \<open>None\<close>; the default of \<open>epsilon\<close> is .1. The first statement,
  \<open>np.zeros(len(self.s))\<close>, raises TypeError when \<open>s\<close> has dimension 0.
\<close>

definition valueIteration ::
  "'z mdp_scheme \<Rightarrow> real option \<Rightarrow> (py_error + 'z mdp_scheme) option" where
  "valueIteration m epsilon_arg =
     (let epsilon = (case epsilon_arg of None \<Rightarrow> 1 / 10 | Some e \<Rightarrow> e)
      in case np_len (s_array m) of
           Inl e \<Rightarrow> Some (Inl e)
         | Inr ns \<Rightarrow>
             (case vi_loop m epsilon (replicate ns 0) of
                None \<Rightarrow> None
              | Some (Inl e) \<Rightarrow> Some (Inl e)
              | Some (Inr V) \<Rightarrow> Some (Inr (m\<lparr>mdp_values := Some V\<rparr>))))"

subsection \<open>extractPolicy\<close>

text \<open>
  The three softmax lines of the loop body: subtract the maximum, exponentiate the
  quotient by \<open>float(tau)\<close>, divide by the sum.
\<close>

definition softmax :: "real \<Rightarrow> real list \<Rightarrow> py_error + npfloat list" where
  "softmax tau state_policy =
     (case np_max state_policy of
        Inl e \<Rightarrow> Inl e
      | Inr mx \<Rightarrow>
          (let shifted = map (\<lambda>x. x - mx) state_policy;
               ex = map (\<lambda>x. np_exp (np_div (Fin x) (Fin tau))) shifted;
               total = np_sum ex
           in Inr (map (\<lambda>x. np_div x total) ex)))"

text \<open>
  The loop body up to the softmax. \<open>np.dot\<close> with \<open>self.values\<close> still \<open>None\<close> raises
  TypeError.
\<close>

definition state_policy :: "'z mdp_scheme \<Rightarrow> real \<Rightarrow> nat \<Rightarrow> py_error + npfloat list" where
  "state_policy m tau i =
     (case np_index (mdp_r m) (int i) of
        Inl e \<Rightarrow> Inl e
      | Inr ri \<Rightarrow>
          (case np_index (mdp_t m) (int i) of
             Inl e \<Rightarrow> Inl e
           | Inr ti \<Rightarrow>
               (case mdp_values m of
                  None \<Rightarrow> Inl TypeError
                | Some V \<Rightarrow>
                    (case np_dot ti V of
                       Inl e \<Rightarrow> Inl e
                     | Inr d \<Rightarrow> softmax tau (map (\<lambda>x. ri + discount m * x) d)))))"

text \<open>
  \<open>self.policy[i] = state_policy\<close>: the row is copied when the lengths agree, a row of
  length 1 is broadcast, any other length raises ValueError.
\<close>

definition set_row :: "npfloat list list \<Rightarrow> nat \<Rightarrow> npfloat list \<Rightarrow> py_error + npfloat list list" where
  "set_row pol i row =
     (if length pol \<le> i then Inl IndexError
      else if length row = length (pol ! i) then Inr (pol[i := row])
      else if length row = 1 then Inr (pol[i := replicate (length (pol ! i)) (hd row)])
      else Inl ValueError)"

fun extract_loop ::
  "'z mdp_scheme \<Rightarrow> real \<Rightarrow> nat list \<Rightarrow> npfloat list list \<Rightarrow> py_error + npfloat list list" where
  "extract_loop m tau [] pol = Inr pol"
| "extract_loop m tau (i # rest) pol =
     (case state_policy m tau i of
        Inl e \<Rightarrow> Inl e
      | Inr row \<Rightarrow>
          (case set_row pol i row of
             Inl e \<Rightarrow> Inl e
           | Inr pol' \<Rightarrow> extract_loop m tau rest pol'))"

text \<open>
  An argument left out is \<open>None\<close>; the default of \<open>tau\<close> is .1. The first statement,
  \<open>np.zeros([len(self.s), len(self.a)])\<close>, raises TypeError when \<open>s\<close> or \<open>a\<close> has
  dimension 0.
\<close>

definition extractPolicy :: "'z mdp_scheme \<Rightarrow> real option \<Rightarrow> py_error + 'z mdp_scheme" where
  "extractPolicy m tau_arg =
     (let tau = (case tau_arg of None \<Rightarrow> 1 / 10 | Some x \<Rightarrow> x)
      in case np_len (s_array m) of
           Inl e \<Rightarrow> Inl e
         | Inr ns \<Rightarrow>
             (case np_len (a_array m) of
                Inl e \<Rightarrow> Inl e
              | Inr na \<Rightarrow>
                  (case extract_loop m tau [0..<ns - 1] (replicate ns (replicate na (Fin 0))) of
                     Inl e \<Rightarrow> Inl e
                   | Inr pol \<Rightarrow> Inr (m\<lparr>mdp_policy := Some pol\<rparr>))))"

section \<open>class BettingGame\<close>

record betting_game = mdp +
  pHeads :: real

text \<open>
  \<open>tHelper\<close>: the source compares with \<open>is\<close>; its arguments are indices below 102, so
  every integer compared is either in CPython's cache of small integers (-5 to 256),
  where \<open>is\<close> is equality, or negative and compared with a non-negative one.
\<close>

definition tHelper :: "int \<Rightarrow> int \<Rightarrow> int \<Rightarrow> real \<Rightarrow> real" where
  "tHelper x y z ph =
     (if x + y = z \<and> y = 0 then 1
      else if y > x \<and> x \<noteq> z then 0
      else if y > x \<and> x = z then 1
      else if x - y = z then 1 - ph
      else if x + y = z then ph
      else if x + y > z \<and> z = 100 then ph
      else 0)"

text \<open>
  The list comprehension over \<open>np.ndenumerate(temp)\<close> followed by \<open>np.reshape\<close>: entry
  \<open>(x, y, z)\<close> of the tensor is \<open>tHelper x y z pHeads\<close>.
\<close>

definition transition_table :: "nat \<Rightarrow> nat \<Rightarrow> real \<Rightarrow> real list list list" where
  "transition_table ns na ph =
     map (\<lambda>x. map (\<lambda>y. map (\<lambda>z. tHelper (int x) (int y) (int z) ph) [0..<ns]) [0..<na]) [0..<ns]"

text \<open>One round of the loop that sends the end game states 100 and 0 to the death state.\<close>

definition death_row :: "nat \<Rightarrow> real list" where
  "death_row ns = (replicate ns 0)[101 := 1]"

definition send_to_death :: "nat \<Rightarrow> nat \<Rightarrow> real list list list \<Rightarrow> real list list list" where
  "send_to_death ns x tt =
     (let t1 = tt[100 := (tt ! 100)[x := death_row ns]]
      in t1[0 := (t1 ! 0)[x := death_row ns]])"

definition setBettingGame :: "betting_game \<Rightarrow> real \<Rightarrow> betting_game" where
  "setBettingGame bg ph =
     (let ss = np_arange 102;
          aa = np_arange 101;
          rr = ((replicate 101 0)[0 := - 10])[100 := 100];
          temp = transition_table (length ss) (length aa) ph
      in bg\<lparr>pHeads := ph, s_array := Array ss, a_array := Array aa, r_array := Array rr,
              t_array := Array (fold (send_to_death (length ss)) [0..<length aa] temp)\<rparr>)"

text \<open>
  \<open>isTerminal\<close> is \<open>state is 101\<close>: 101 is in the cache of small integers, so for an integer
  state the test is equality.
\<close>

definition isTerminal :: "betting_game \<Rightarrow> int \<Rightarrow> bool" where
  "isTerminal bg state = (state = 101)"

text \<open>The object as \<open>BettingGame.__init__\<close> has it before it solves the model.\<close>

definition betting_model :: "real \<Rightarrow> betting_game" where
  "betting_model ph = setBettingGame (MDP_init \<lparr>pHeads = ph\<rparr>) ph"

text \<open>
  \<open>BettingGame.__init__(pHeads=.5, epsilon=.01, tau=1)\<close>: it calls \<open>valueIteration()\<close>
  and \<open>extractPolicy()\<close> with no argument.
\<close>

definition BettingGame_init ::
  "real option \<Rightarrow> real option \<Rightarrow> real option \<Rightarrow> (py_error + betting_game) option" where
  "BettingGame_init pHeads_arg epsilon_arg tau_arg =
     (let ph = (case pHeads_arg of None \<Rightarrow> 1 / 2 | Some x \<Rightarrow> x);
          epsilon = (case epsilon_arg of None \<Rightarrow> 1 / 100 | Some x \<Rightarrow> x);
          tau = (case tau_arg of None \<Rightarrow> 1 | Some x \<Rightarrow> x)
      in case valueIteration (betting_model ph) None of
           None \<Rightarrow> None
         | Some (Inl e) \<Rightarrow> Some (Inl e)
         | Some (Inr solved) \<Rightarrow> Some (extractPolicy solved None))"

section \<open>class InferenceMachine\<close>

record inference_machine =
  sims :: "betting_game list"
  likelihood :: "npfloat list option"
  posterior :: "npfloat list option"
  prior :: "npfloat list option"

text \<open>The grid of biases for which \<open>buildBiasEngine\<close> builds and solves a betting game.\<close>

definition bias_grid :: "real list" where
  "bias_grid = np_arange_step 0 (101 / 100) (1 / 100)"

fun build_sims :: "real list \<Rightarrow> (py_error + betting_game list) option" where
  "build_sims [] = Some (Inr [])"
| "build_sims (i # rest) =
     (case BettingGame_init (Some i) None None of
        None \<Rightarrow> None
      | Some (Inl e) \<Rightarrow> Some (Inl e)
      | Some (Inr bg) \<Rightarrow>
          (case build_sims rest of
             None \<Rightarrow> None
           | Some (Inl e) \<Rightarrow> Some (Inl e)
           | Some (Inr bgs) \<Rightarrow> Some (Inr (bg # bgs))))"

definition buildBiasEngine :: "inference_machine \<Rightarrow> (py_error + inference_machine) option" where
  "buildBiasEngine im =
     (case build_sims bias_grid of
        None \<Rightarrow> None
      | Some (Inl e) \<Rightarrow> Some (Inl e)
      | Some (Inr bgs) \<Rightarrow> Some (Inr (im\<lparr>sims := sims im @ bgs\<rparr>)))"

text \<open>\<open>InferenceMachine.__init__\<close>: empty fields, then \<open>buildBiasEngine\<close>.\<close>

definition InferenceMachine_init :: "(py_error + inference_machine) option" where
  "InferenceMachine_init =
     buildBiasEngine \<lparr>sims = [], likelihood = None, posterior = None, prior = None\<rparr>"

text \<open>\<open>self.sims[i].policy[state][action]\<close> for every \<open>i\<close>.\<close>

fun likelihood_list :: "betting_game list \<Rightarrow> int \<Rightarrow> int \<Rightarrow> py_error + npfloat list" where
  "likelihood_list [] state action = Inr []"
| "likelihood_list (bg # bgs) state action =
     (case mdp_policy bg of
        None \<Rightarrow> Inl TypeError
      | Some pol \<Rightarrow>
          (case np_index pol state of
             Inl e \<Rightarrow> Inl e
           | Inr row \<Rightarrow>
               (case np_index row action of
                  Inl e \<Rightarrow> Inl e
                | Inr x \<Rightarrow>
                    (case likelihood_list bgs state action of
                       Inl e \<Rightarrow> Inl e
                     | Inr xs \<Rightarrow> Inr (x # xs)))))"

definition inferLikelihood :: "inference_machine \<Rightarrow> int \<Rightarrow> int \<Rightarrow> py_error + inference_machine" where
  "inferLikelihood im state action =
     (case likelihood_list (sims im) state action of
        Inl e \<Rightarrow> Inl e
      | Inr xs \<Rightarrow> Inr (im\<lparr>likelihood := Some xs\<rparr>))"

text \<open>
  \<open>scipy.stats.beta.pdf(x, a, b)\<close> is the density of the Beta distribution,
  \<open>x ** (a - 1) * (1 - x) ** (b - 1) / B(a, b)\<close> on the unit interval and 0 outside.
  The value \<open>B(a, b)\<close> of the Beta function is a positive constant; it is the
  parameter \<open>B\<close> of the model.
\<close>

definition beta_pdf :: "real \<Rightarrow> real \<Rightarrow> real \<Rightarrow> real \<Rightarrow> real" where
  "beta_pdf B a b x =
     (if 0 \<le> x \<and> x \<le> 1 then x powr (a - 1) * (1 - x) powr (b - 1) / B else 0)"

text \<open>The grid \<open>np.linspace(.01, 1.0, 101)\<close> of \<open>inferPosterior\<close> and \<open>expectedPosterior\<close>.\<close>

definition posterior_grid :: "real list" where
  "posterior_grid = np_linspace (1 / 100) 1 101"

text \<open>The three lines that compute \<open>self.prior\<close>.\<close>

definition beta_prior :: "real \<Rightarrow> npfloat list" where
  "beta_prior B =
     (let pr = map (\<lambda>x. Fin (beta_pdf B (19 / 10) (19 / 10) x)) posterior_grid;
          total = np_sum pr
      in map (\<lambda>x. np_div x total) pr)"

text \<open>
  \<open>inferPosterior\<close> ignores its two arguments. \<open>self.likelihood\<close> is a Python list;
  multiplied with an array it is converted to one. With \<open>self.likelihood\<close> still
  \<open>None\<close> the product raises TypeError.
\<close>

definition inferPosterior :: "real \<Rightarrow> inference_machine \<Rightarrow> py_error + inference_machine" where
  "inferPosterior B im =
     (let pr = beta_prior B
      in case likelihood im of
           None \<Rightarrow> Inl TypeError
         | Some lik \<Rightarrow>
             (case np_multiply lik pr of
                Inl e \<Rightarrow> Inl e
              | Inr post \<Rightarrow>
                  (let total = np_sum post
                   in Inr (im\<lparr>prior := Some pr,
                              posterior := Some (map (\<lambda>x. np_div x total) post)\<rparr>))))"

text \<open>The loop of \<open>expectedPosterior\<close>, from index \<open>i\<close> on, with the sum so far.\<close>

fun expectation_loop :: "npfloat list \<Rightarrow> real list \<Rightarrow> nat list \<Rightarrow> npfloat \<Rightarrow> py_error + npfloat" where
  "expectation_loop post x [] expectation = Inr expectation"
| "expectation_loop post x (i # rest) expectation =
     (if i < length post \<and> i < length x
      then expectation_loop post x rest (np_add expectation (np_mul (post ! i) (Fin (x ! i))))
      else Inl IndexError)"

definition expectedPosterior :: "inference_machine \<Rightarrow> py_error + npfloat" where
  "expectedPosterior im =
     (case posterior im of
        None \<Rightarrow> Inl TypeError
      | Some post \<Rightarrow> expectation_loop post posterior_grid [0..<length post] (Fin 0))"

section \<open>The specification's formulas\<close>

text \<open>
  The specification states the Bellman backup, the in-place sweep and the softmax as
  formulas over index sets. They are written here as the specification has them, to be
  compared with the functions above.
\<close>

definition q_spec :: "'z mdp_scheme \<Rightarrow> real list \<Rightarrow> nat \<Rightarrow> nat \<Rightarrow> real" where
  "q_spec m V i k = (\<Sum>j < length (mdp_s m). mdp_t m ! i ! k ! j * V ! j)"

definition bellman_spec :: "'z mdp_scheme \<Rightarrow> real list \<Rightarrow> nat \<Rightarrow> real" where
  "bellman_spec m V i =
     mdp_r m ! i + discount m * Max ((\<lambda>k. q_spec m V i k) ` {..<length (mdp_a m)})"

definition gauss_seidel_spec :: "'z mdp_scheme \<Rightarrow> real list \<Rightarrow> real list" where
  "gauss_seidel_spec m V =
     fold (\<lambda>i W. W[i := bellman_spec m W i]) [0..<length (mdp_s m) - 1] V"

definition vi_iterate :: "'z mdp_scheme \<Rightarrow> nat \<Rightarrow> real list" where
  "vi_iterate m k = (gauss_seidel_spec m ^^ k) (replicate (length (mdp_s m)) 0)"

definition sweep_change :: "'z mdp_scheme \<Rightarrow> nat \<Rightarrow> real" where
  "sweep_change m k =
     Max ((\<lambda>i. \<bar>vi_iterate m (Suc k) ! i - vi_iterate m k ! i\<bar>) ` {..<length (mdp_s m)})"

definition action_value_spec :: "'z mdp_scheme \<Rightarrow> real list \<Rightarrow> nat \<Rightarrow> nat \<Rightarrow> real" where
  "action_value_spec m V i k = mdp_r m ! i + discount m * q_spec m V i k"

definition softmax_spec :: "real \<Rightarrow> (nat \<Rightarrow> real) \<Rightarrow> nat \<Rightarrow> nat \<Rightarrow> real" where
  "softmax_spec tau q n k =
     exp ((q k - Max (q ` {..<n})) / tau) / (\<Sum>l < n. exp ((q l - Max (q ` {..<n})) / tau))"

text \<open>
  The prior and the posterior as the specification states them: the Beta density at the
  grid points, normalised to sum 1, and the product of likelihood and prior, normalised
  to sum 1.
\<close>

definition prior_spec :: "real \<Rightarrow> nat \<Rightarrow> real" where
  "prior_spec B i =
     beta_pdf B (19 / 10) (19 / 10) (posterior_grid ! i) /
     (\<Sum>j < 101. beta_pdf B (19 / 10) (19 / 10) (posterior_grid ! j))"

definition posterior_spec :: "real \<Rightarrow> real list \<Rightarrow> nat \<Rightarrow> real" where
  "posterior_spec B xs i =
     xs ! i * prior_spec B i / (\<Sum>j < 101. xs ! j * prior_spec B j)"

text \<open>
  The shapes under which the two loops raise no exception: at least one state and one
  action, a reward and a block of the tensor for every state but the last, each block
  with one row per action and one entry per state.
\<close>

definition well_shaped :: "'z mdp_scheme \<Rightarrow> bool" where
  "well_shaped m =
     (mdp_s m \<noteq> [] \<and> mdp_a m \<noteq> [] \<and>
      length (mdp_s m) - 1 \<le> length (mdp_r m) \<and>
      length (mdp_s m) - 1 \<le> length (mdp_t m) \<and>
      (\<forall>i < length (mdp_s m) - 1.
         length (mdp_t m ! i) = length (mdp_a m) \<and>
         (\<forall>k < length (mdp_a m). length (mdp_t m ! i ! k) = length (mdp_s m))))"

text \<open>
  A condition on the tensor under which the sweeps contract: in every row of a swept
  state, the absolute weights of the swept next states sum to at most 1.
\<close>

definition substochastic :: "'z mdp_scheme \<Rightarrow> bool" where
  "substochastic m =
     (\<forall>i < length (mdp_s m) - 1. \<forall>k < length (mdp_a m).
        (\<Sum>j < length (mdp_s m) - 1. \<bar>mdp_t m ! i ! k ! j\<bar>) \<le> 1)"

text \<open>A small model on which the loops are run: two states, two actions.\<close>

definition toy :: mdp where
  "toy = \<lparr>s_array = Array [0, 1], a_array = Array [0, 1], r_array = Array [1, 0],
          t_array = Array [[[0, 1], [1 / 2, 1 / 2]], [[0, 1], [0, 1]]],
          discount = 95 / 100, mdp_values = None, mdp_policy = None\<rparr>"

text \<open>The same model with a value vector, as \<open>extractPolicy\<close> reads it.\<close>

definition toy_solved :: mdp where
  "toy_solved = toy\<lparr>mdp_values := Some [1, 0]\<rparr>"

text \<open>
  The same model with a large value: the action values of state 0 are 1 and 951, and at
  temperature .1 the exponential of 951 / .1 is beyond the doubles.
\<close>

definition toy_large :: mdp where
  "toy_large = toy\<lparr>mdp_values := Some [2000, 0]\<rparr>"

text \<open>
  An inference machine whose likelihood list is given. \<open>inferPosterior\<close> and
  \<open>expectedPosterior\<close> do not read \<open>self.sims\<close>, which is left empty here.
\<close>

definition machine :: "npfloat list \<Rightarrow> inference_machine" where
  "machine lik = \<lparr>sims = [], likelihood = Some lik, posterior = None, prior = None\<rparr>"

text \<open>The array of \<open>n\<close> zeros with a one at index \<open>i\<close>.\<close>

definition one_hot :: "nat \<Rightarrow> nat \<Rightarrow> real list" where
  "one_hot n i = (replicate n 0)[i := 1]"

section \<open>Arrays with a length, exponentials without overflow\<close>

lemma np_len_elems: "elems a \<noteq> [] \<Longrightarrow> np_len a = Inr (length (elems a))"
  by (cases a) simp_all

lemma np_len_Inr: "np_len a = Inr n \<Longrightarrow> np_len a = Inr (length (elems a))"
  by (cases a) auto

lemma well_shaped_len:
  assumes "well_shaped m"
  shows "np_len (s_array m) = Inr (length (mdp_s m))"
    and "np_len (a_array m) = Inr (length (mdp_a m))"
  using assms by (simp_all add: well_shaped_def np_len_elems)

text \<open>
  The object that \<open>MDP.__init__\<close> leaves when it is called without arguments: \<open>len\<close> of
  its arrays raises TypeError, indexing them raises IndexError.
\<close>

lemma MDP_init_unsized:
  "valueIteration (MDP_init z) epsilon_arg = Some (Inl TypeError)"
  "extractPolicy (MDP_init z) tau_arg = Inl TypeError"
  "getReward (MDP_init z) i = Inl IndexError"
  "getTransitionStatesAndProbs (MDP_init z) i k = Inl IndexError"
  by (simp_all add: valueIteration_def extractPolicy_def getReward_def
      getTransitionStatesAndProbs_def MDP_init_def np_index_def)

lemma float_max_ge_one: "1 \<le> float_max"
proof -
  have "(1 :: real) \<le> 2 - 1 / 2 ^ 52"
  proof -
    have "(1 :: real) \<le> 2 ^ 52" by (rule one_le_power) simp
    then have "1 / 2 ^ 52 \<le> (1 :: real)" by (simp add: divide_le_eq_1)
    then show ?thesis by linarith
  qed
  moreover have "(1 :: real) \<le> 2 ^ 1023" by (rule one_le_power) simp
  ultimately have "(1 :: real) * 1 \<le> (2 - 1 / 2 ^ 52) * 2 ^ 1023"
    by (intro mult_mono) simp_all
  then show ?thesis by (simp only: float_max_def mult_1)
qed

lemma float_max_less: "float_max < 2 ^ 1024"
proof -
  have "(0 :: real) < 1 / 2 ^ 52" by (rule divide_pos_pos) (simp, rule zero_less_power, simp)
  then have "(2 - 1 / 2 ^ 52 :: real) < 2" by linarith
  moreover have pos: "(0 :: real) < 2 ^ 1023" by (rule zero_less_power) simp
  ultimately have "(2 - 1 / 2 ^ 52) * 2 ^ 1023 < (2 :: real) * 2 ^ 1023"
    by (rule mult_strict_right_mono)
  also have "(2 :: real) * 2 ^ 1023 = 2 ^ Suc 1023" by (rule power_Suc [symmetric])
  also have "Suc 1023 = 1024" by simp
  finally show ?thesis by (simp only: float_max_def)
qed

lemma np_exp_nonpos: "x \<le> 0 \<Longrightarrow> np_exp (Fin x) = Fin (exp x)"
proof -
  assume "x \<le> 0"
  then have "exp x \<le> 1" by simp
  with float_max_ge_one have "\<not> float_max < exp x" by linarith
  then show ?thesis by simp
qed

lemma exp_ge_power_two: "2 ^ n \<le> exp (real n)"
proof -
  have "(2 :: real) \<le> exp 1" using exp_ge_add_one_self [of 1] by simp
  then have "(2 :: real) ^ n \<le> exp 1 ^ n" by (intro power_mono) simp_all
  also have "exp 1 ^ n = exp (real n * 1)" by (rule exp_of_nat_mult [symmetric])
  finally show ?thesis by simp
qed

lemma np_exp_overflow: "1024 \<le> x \<Longrightarrow> np_exp (Fin x) = PInf"
proof -
  assume x: "1024 \<le> x"
  have "float_max < 2 ^ 1024" by (rule float_max_less)
  also have "(2 :: real) ^ 1024 \<le> exp (real 1024)" by (rule exp_ge_power_two)
  also have "exp (real 1024) \<le> exp x" using x by simp
  finally show ?thesis by simp
qed

section \<open>The arrays of the betting game\<close>

lemma np_index_nat:
  "np_index xs (int i) = (if i < length xs then Inr (xs ! i) else Inl IndexError)"
  by (simp add: np_index_def)

lemma betting_model_s: "mdp_s (betting_model ph) = np_arange 102"
  by (simp add: betting_model_def setBettingGame_def Let_def)

lemma betting_model_a: "mdp_a (betting_model ph) = np_arange 101"
  by (simp add: betting_model_def setBettingGame_def Let_def)

lemma betting_model_r:
  "mdp_r (betting_model ph) = ((replicate 101 0)[0 := - 10])[100 := 100]"
  by (simp add: betting_model_def setBettingGame_def Let_def)

lemma betting_model_discount: "discount (betting_model ph) = 95 / 100"
  by (simp add: betting_model_def setBettingGame_def Let_def MDP_init_def)

lemma betting_model_t:
  "mdp_t (betting_model ph) = fold (send_to_death 102) [0..<101] (transition_table 102 101 ph)"
  by (simp add: betting_model_def setBettingGame_def Let_def np_arange_def)

lemma send_to_death_length: "length (send_to_death ns x tt) = length tt"
  by (simp add: send_to_death_def Let_def)

lemma send_to_death_row_length:
  "i < length tt \<Longrightarrow> length (send_to_death ns x tt ! i) = length (tt ! i)"
  by (cases "i = 0"; cases "i = 100") (simp_all add: send_to_death_def Let_def)

lemma send_to_death_nth:
  assumes "100 < length tt" and "i < length tt" and "y < length (tt ! i)"
  shows "send_to_death ns x tt ! i ! y =
           (if (i = 0 \<or> i = 100) \<and> y = x then death_row ns else tt ! i ! y)"
  using assms
  by (cases "i = 0"; cases "i = 100"; cases "y = x") (simp_all add: send_to_death_def Let_def)

lemma fold_send_to_death:
  assumes "100 < length tt"
  shows "length (fold (send_to_death ns) [0..<k] tt) = length tt \<and>
         (\<forall>i < length tt. length (fold (send_to_death ns) [0..<k] tt ! i) = length (tt ! i) \<and>
            (\<forall>y < length (tt ! i). fold (send_to_death ns) [0..<k] tt ! i ! y =
               (if (i = 0 \<or> i = 100) \<and> y < k then death_row ns else tt ! i ! y)))"
proof (induction k)
  case 0
  show ?case by simp
next
  case (Suc k)
  let ?f = "fold (send_to_death ns) [0..<k] tt"
  from Suc assms have len: "100 < length ?f" by simp
  show ?case
    using Suc len
    by (auto simp: send_to_death_length send_to_death_row_length send_to_death_nth less_Suc_eq)
qed

lemma betting_model_t_length: "length (mdp_t (betting_model ph)) = 102"
  using fold_send_to_death [of "transition_table 102 101 ph" 102 101]
  by (simp add: betting_model_t transition_table_def)

lemma betting_model_t_row_length:
  "i < 102 \<Longrightarrow> length (mdp_t (betting_model ph) ! i) = 101"
  using fold_send_to_death [of "transition_table 102 101 ph" 102 101]
  by (simp add: betting_model_t transition_table_def)

lemma betting_model_t_nth:
  assumes "i < 102" and "y < 101"
  shows "mdp_t (betting_model ph) ! i ! y =
           (if i = 0 \<or> i = 100 then death_row 102
            else map (\<lambda>z. tHelper (int i) (int y) (int z) ph) [0..<102])"
  using fold_send_to_death [of "transition_table 102 101 ph" 102 101] assms
  by (simp add: betting_model_t transition_table_def)

lemma np_index_numeral:
  "np_index xs (numeral k) =
     (if numeral k < length xs then Inr (xs ! numeral k) else Inl IndexError)"
  using np_index_nat [of xs "numeral k"] by simp

section \<open>The transition rows of the betting game\<close>

lemma row_51_50:
  "getTransitionStatesAndProbs (betting_model ph) 51 50 =
     Inr (map (\<lambda>z. tHelper 51 50 (int z) ph) [0..<102])"
  using betting_model_t_nth [of 51 50 ph]
  by (simp add: getTransitionStatesAndProbs_def np_index_numeral betting_model_t_length
      betting_model_t_row_length)

lemma tHelper_51_50:
  "tHelper 51 50 (int z) ph =
     (if z = 1 then 1 - ph else 0) + (if z = 101 then ph else 0) + (if z = 100 then ph else 0)"
  by (simp add: tHelper_def)

lemma sum_51_50: "sum_list (map (\<lambda>z. tHelper 51 50 (int z) ph) [0..<102]) = 1 + ph"
  by (simp add: interv_sum_list_conv_sum_set_nat tHelper_51_50 sum.distrib)

section \<open>The reward array of the betting game\<close>

text \<open>
  The state array has 102 entries, the reward array 101: \<open>getReward\<close> returns -10 for
  state 0, 100 for state 100 and 0 for the states between; for the death state 101 it
  raises IndexError.
\<close>

lemma betting_model_rewards:
  "length (mdp_r (betting_model ph)) = 101 \<and> length (mdp_s (betting_model ph)) = 102 \<and>
   (\<forall>st \<in> set (mdp_s (betting_model ph)).
      getReward (betting_model ph) st =
        (if st = 101 then Inl IndexError
         else Inr (if st = 0 then - 10 else if st = 100 then 100 else 0)))"
proof -
  have "getReward (betting_model ph) (int i) =
        (if int i = 101 then Inl IndexError
         else Inr (if int i = 0 then - 10 else if int i = 100 then 100 else 0))"
    if "i < 102" for i
  proof (cases "i = 101")
    case True
    then show ?thesis by (simp add: getReward_def np_index_numeral betting_model_r)
  next
    case False
    with that have "i < 101" by simp
    then show ?thesis
      by (simp add: getReward_def np_index_nat betting_model_r nth_list_update)
  qed
  then show ?thesis
    by (auto simp: betting_model_r betting_model_s np_arange_def)
qed

section \<open>valueIteration computes the Gauss-Seidel iterates\<close>

lemma np_max_Max: "xs \<noteq> [] \<Longrightarrow> np_max xs = Inr (Max (set xs))"
  by (cases xs) (simp_all add: np_max_def Max.set_eq_fold [symmetric])

lemma set_map_nth: "set (map f xs) = (\<lambda>k. f (xs ! k)) ` {..<length xs}"
proof -
  have "set xs = (\<lambda>k. xs ! k) ` {..<length xs}" by (auto simp: set_conv_nth)
  then have "f ` set xs = f ` ((\<lambda>k. xs ! k) ` {..<length xs})" by (rule arg_cong)
  also have "\<dots> = (\<lambda>k. f (xs ! k)) ` {..<length xs}" by (rule image_image)
  finally show ?thesis by simp
qed

lemma vdot_sum:
  "length xs = length ys \<Longrightarrow> vdot xs ys = (\<Sum>j < length ys. xs ! j * ys ! j)"
  by (simp add: vdot_def sum_list_sum_nth atLeast0LessThan)

lemma Max_scale:
  fixes c :: real
  assumes "0 \<le> c" and "finite A" and "A \<noteq> {}"
  shows "Max ((\<lambda>x. c * x) ` A) = c * Max A"
proof -
  have "mono (\<lambda>x. c * x)" using assms(1) by (simp add: mono_def mult_left_mono)
  then show ?thesis using assms(2,3) by (simp add: mono_Max_commute)
qed

lemma np_dot_rows:
  assumes "\<forall>k < length rows. length (rows ! k) = length v"
  shows "np_dot rows v = Inr (map (\<lambda>row. vdot row v) rows)"
  using assms by (simp add: np_dot_def list_all_length)

lemma backup_is_bellman:
  assumes ws: "well_shaped m" and len: "length V = length (mdp_s m)"
    and i: "i < length (mdp_s m) - 1" and disc: "0 \<le> discount m"
  shows "backup m V i = Inr (bellman_spec m V i)"
proof -
  let ?ti = "mdp_t m ! i"
  from ws i have ri: "i < length (mdp_r m)" and ti: "i < length (mdp_t m)"
    and na: "length ?ti = length (mdp_a m)" and a_ne: "mdp_a m \<noteq> []"
    and rows: "\<forall>k < length ?ti. length (?ti ! k) = length V"
    by (simp_all add: well_shaped_def len)
  have dot: "np_dot ?ti V = Inr (map (\<lambda>row. vdot row V) ?ti)"
    using rows by (rule np_dot_rows)
  have ne: "map (\<lambda>x. discount m * x) (map (\<lambda>row. vdot row V) ?ti) \<noteq> []"
    using na a_ne by auto
  have q: "vdot (?ti ! k) V = q_spec m V i k" if "k < length (mdp_a m)" for k
    using rows that na by (simp add: vdot_sum q_spec_def len)
  have "map (\<lambda>x. discount m * x) (map (\<lambda>row. vdot row V) ?ti) =
        map (\<lambda>row. discount m * vdot row V) ?ti" by simp
  then have "set (map (\<lambda>x. discount m * x) (map (\<lambda>row. vdot row V) ?ti)) =
        (\<lambda>k. discount m * vdot (?ti ! k) V) ` {..<length (mdp_a m)}"
    by (simp only: set_map_nth na)
  also have "\<dots> = (\<lambda>k. discount m * q_spec m V i k) ` {..<length (mdp_a m)}"
    by (rule image_cong) (simp_all add: q)
  also have "\<dots> = (\<lambda>x. discount m * x) ` ((\<lambda>k. q_spec m V i k) ` {..<length (mdp_a m)})"
    by (simp add: image_image)
  finally have st: "set (map (\<lambda>x. discount m * x) (map (\<lambda>row. vdot row V) ?ti)) =
        (\<lambda>x. discount m * x) ` ((\<lambda>k. q_spec m V i k) ` {..<length (mdp_a m)})" .
  have "{..<length (mdp_a m)} \<noteq> {}" using a_ne by auto
  then have mx: "Max (set (map (\<lambda>x. discount m * x) (map (\<lambda>row. vdot row V) ?ti))) =
      discount m * Max ((\<lambda>k. q_spec m V i k) ` {..<length (mdp_a m)})"
    unfolding st using disc by (intro Max_scale) simp_all
  have "np_max (map (\<lambda>x. discount m * x) (map (\<lambda>row. vdot row V) ?ti)) =
      Inr (discount m * Max ((\<lambda>k. q_spec m V i k) ` {..<length (mdp_a m)}))"
    using np_max_Max [OF ne] mx by simp
  then show ?thesis
    using ri ti dot
    by (simp add: backup_def np_index_nat bellman_spec_def del: map_map)
qed

lemma sweep_is_fold:
  assumes ws: "well_shaped m" and disc: "0 \<le> discount m"
  shows "length V = length (mdp_s m) \<Longrightarrow> set ixs \<subseteq> {..<length (mdp_s m) - 1} \<Longrightarrow>
         sweep m ixs V = Inr (fold (\<lambda>i W. W[i := bellman_spec m W i]) ixs V)"
proof (induction ixs arbitrary: V)
  case Nil
  show ?case by simp
next
  case (Cons i ixs)
  from Cons.prems have i: "i < length (mdp_s m) - 1" by simp
  then have iV: "i < length V" using Cons.prems(1) by simp
  have "backup m V i = Inr (bellman_spec m V i)"
    using ws Cons.prems(1) i disc by (rule backup_is_bellman)
  moreover have "sweep m ixs (V[i := bellman_spec m V i]) =
      Inr (fold (\<lambda>i W. W[i := bellman_spec m W i]) ixs (V[i := bellman_spec m V i]))"
    using Cons.prems by (intro Cons.IH) simp_all
  ultimately show ?case using iV by simp
qed

lemma fold_update_length:
  "length (fold (\<lambda>i W. W[i := f W i]) ixs V) = length V"
  by (induction ixs arbitrary: V) simp_all

lemma gauss_seidel_length: "length (gauss_seidel_spec m V) = length V"
  by (simp add: gauss_seidel_spec_def fold_update_length)

lemma sweep_is_gauss_seidel:
  assumes "well_shaped m" and "0 \<le> discount m" and "length V = length (mdp_s m)"
  shows "sweep m [0..<length (mdp_s m) - 1] V = Inr (gauss_seidel_spec m V)"
  unfolding gauss_seidel_spec_def using assms by (intro sweep_is_fold) auto

lemma max_abs_diff_Max:
  assumes "length V = length W" and "V \<noteq> []"
  shows "max_abs_diff V W = Inr (Max ((\<lambda>i. \<bar>V ! i - W ! i\<bar>) ` {..<length V}))"
proof -
  have ne: "map2 (\<lambda>x y. \<bar>x - y\<bar>) V W \<noteq> []" using assms by (cases V; cases W) simp_all
  have "set (map2 (\<lambda>x y. \<bar>x - y\<bar>) V W) =
        (\<lambda>k. (\<lambda>(x, y). \<bar>x - y\<bar>) (zip V W ! k)) ` {..<length V}"
    using assms(1) by (simp only: set_map_nth) simp
  also have "\<dots> = (\<lambda>i. \<bar>V ! i - W ! i\<bar>) ` {..<length V}"
    by (rule image_cong) (simp_all add: assms(1))
  finally show ?thesis using np_max_Max [OF ne] by (simp add: max_abs_diff_def)
qed

lemma vi_iterate_length: "length (vi_iterate m k) = length (mdp_s m)"
  by (induction k) (simp_all add: vi_iterate_def gauss_seidel_length)

lemma vi_iterate_Suc: "vi_iterate m (Suc k) = gauss_seidel_spec m (vi_iterate m k)"
  by (simp add: vi_iterate_def)

lemma vi_loop_step:
  assumes "well_shaped m" and "0 \<le> discount m"
  shows "vi_loop m eps (vi_iterate m k) =
           (if sweep_change m k \<le> eps then Some (Inr (vi_iterate m (Suc k)))
            else vi_loop m eps (vi_iterate m (Suc k)))"
proof -
  have ne: "gauss_seidel_spec m (vi_iterate m k) \<noteq> []"
    using assms(1) vi_iterate_length [of m "Suc k"] by (auto simp: well_shaped_def vi_iterate_Suc)
  have len: "length (gauss_seidel_spec m (vi_iterate m k)) = length (vi_iterate m k)"
    by (simp add: gauss_seidel_length)
  have sw: "sweep m [0..<length (mdp_s m) - 1] (vi_iterate m k) =
      Inr (gauss_seidel_spec m (vi_iterate m k))"
    using assms vi_iterate_length by (rule sweep_is_gauss_seidel)
  have mad: "max_abs_diff (gauss_seidel_spec m (vi_iterate m k)) (vi_iterate m k) =
      Inr (sweep_change m k)"
    using max_abs_diff_Max [OF len ne]
    by (simp add: sweep_change_def vi_iterate_Suc gauss_seidel_length vi_iterate_length)
  show ?thesis
    by (subst vi_loop.simps) (simp only: sw mad sum.case vi_iterate_Suc)
qed

lemma vi_loop_stops:
  assumes ws: "well_shaped m" and disc: "0 \<le> discount m"
    and stop: "sweep_change m (j + k) \<le> eps"
    and before: "\<forall>l < k. \<not> sweep_change m (j + l) \<le> eps"
  shows "vi_loop m eps (vi_iterate m j) = Some (Inr (vi_iterate m (Suc (j + k))))"
  using stop before
proof (induction k arbitrary: j)
  case 0
  then show ?case by (simp add: vi_loop_step [OF ws disc])
next
  case (Suc k)
  from Suc.prems(2) have first: "\<not> sweep_change m j \<le> eps" by (metis add.right_neutral zero_less_Suc)
  have "vi_loop m eps (vi_iterate m (Suc j)) = Some (Inr (vi_iterate m (Suc (Suc j + k))))"
  proof (rule Suc.IH)
    show "sweep_change m (Suc j + k) \<le> eps" using Suc.prems(1) by simp
    show "\<forall>l<k. \<not> sweep_change m (Suc j + l) \<le> eps"
      using Suc.prems(2) by (metis Suc_less_eq add_Suc_shift)
  qed
  then show ?case using first by (simp add: vi_loop_step [OF ws disc, of eps j])
qed

lemma vi_loop_diverges_aux:
  assumes ws: "well_shaped m" and disc: "0 \<le> discount m"
    and never: "\<forall>k. \<not> sweep_change m k \<le> eps"
    and ret: "vi_loop m0 eps0 V0 = Some res0"
  shows "m0 = m \<and> eps0 = eps \<longrightarrow> (\<forall>k. V0 \<noteq> vi_iterate m k)"
proof (rule vi_loop.raw_induct
    [where P = "\<lambda>m' eps' V res. m' = m \<and> eps' = eps \<longrightarrow> (\<forall>k. V \<noteq> vi_iterate m k)",
      OF _ ret])
  fix loop :: "'a mdp_scheme \<Rightarrow> real \<Rightarrow> real list \<Rightarrow> (py_error + real list) option"
  fix m' eps' V res
  assume IH: "\<And>m'' eps'' W y. loop m'' eps'' W = Some y \<Longrightarrow>
      m'' = m \<and> eps'' = eps \<longrightarrow> (\<forall>k. W \<noteq> vi_iterate m k)"
  assume body: "(case sweep m' [0..<length (mdp_s m') - 1] V of
        Inl e \<Rightarrow> Some (Inl e)
      | Inr V' \<Rightarrow>
          (case max_abs_diff V' V of
             Inl e \<Rightarrow> Some (Inl e)
           | Inr d \<Rightarrow> if d \<le> eps' then Some (Inr V') else loop m' eps' V')) = Some res"
  show "m' = m \<and> eps' = eps \<longrightarrow> (\<forall>k. V \<noteq> vi_iterate m k)"
  proof (intro impI allI notI)
    fix k
    assume eq: "m' = m \<and> eps' = eps" and V: "V = vi_iterate m k"
    have sw: "sweep m [0..<length (mdp_s m) - 1] (vi_iterate m k) =
        Inr (gauss_seidel_spec m (vi_iterate m k))"
      using ws disc vi_iterate_length by (rule sweep_is_gauss_seidel)
    have ne: "gauss_seidel_spec m (vi_iterate m k) \<noteq> []"
      using ws vi_iterate_length [of m "Suc k"] by (auto simp: well_shaped_def vi_iterate_Suc)
    have len: "length (gauss_seidel_spec m (vi_iterate m k)) = length (vi_iterate m k)"
      by (simp add: gauss_seidel_length)
    have mad: "max_abs_diff (gauss_seidel_spec m (vi_iterate m k)) (vi_iterate m k) =
        Inr (sweep_change m k)"
      using max_abs_diff_Max [OF len ne]
      by (simp add: sweep_change_def vi_iterate_Suc gauss_seidel_length vi_iterate_length)
    have no: "\<not> sweep_change m k \<le> eps" using never by simp
    from body have "loop m eps (vi_iterate m (Suc k)) = Some res"
      using no eq unfolding V by (simp only: sw mad sum.case vi_iterate_Suc if_False)
    then have "vi_iterate m (Suc k) \<noteq> vi_iterate m (Suc k)"
      using IH by blast
    then show False by simp
  qed
qed

lemma vi_loop_diverges:
  assumes "well_shaped m" and "0 \<le> discount m" and "\<forall>k. \<not> sweep_change m k \<le> eps"
  shows "vi_loop m eps (vi_iterate m k) = None"
proof (cases "vi_loop m eps (vi_iterate m k)")
  case None
  then show ?thesis .
next
  case (Some res)
  from vi_loop_diverges_aux [OF assms Some] show ?thesis by blast
qed

subsection \<open>The loop on the two-state model\<close>

lemma toy_well_shaped: "well_shaped toy"
  by (simp add: well_shaped_def toy_def less_Suc_eq numeral_2_eq_2)

lemma toy_discount: "0 \<le> discount toy"
  by (simp add: toy_def)

lemma toy_sweep: "gauss_seidel_spec toy [x, y] = [1 + 95 / 100 * max y ((x + y) / 2), y]"
proof -
  have "sweep toy [0..<length (mdp_s toy) - 1] [x, y] = Inr (gauss_seidel_spec toy [x, y])"
    by (rule sweep_is_gauss_seidel [OF toy_well_shaped toy_discount]) (simp add: toy_def)
  moreover have "sweep toy [0..<length (mdp_s toy) - 1] [x, y] =
      Inr [1 + 95 / 100 * max y ((x + y) / 2), y]"
    by (simp add: toy_def backup_def np_index_def np_dot_def vdot_def np_max_def max_def)
  ultimately show ?thesis by simp
qed

lemma toy_iterate_0: "vi_iterate toy 0 = [0, 0]"
proof -
  have "length (mdp_s toy) = Suc (Suc 0)" by (simp add: toy_def)
  then show ?thesis by (simp add: vi_iterate_def)
qed

lemma toy_iterate_1: "vi_iterate toy (Suc 0) = [1, 0]"
  by (simp add: vi_iterate_Suc toy_iterate_0 toy_sweep)

lemma toy_iterate_2: "vi_iterate toy (Suc (Suc 0)) = [59 / 40, 0]"
  by (simp add: vi_iterate_Suc [of toy "Suc 0"] toy_iterate_1 toy_sweep)

lemma toy_iterate_3: "vi_iterate toy (Suc (Suc (Suc 0))) = [2721 / 1600, 0]"
  by (simp add: vi_iterate_Suc [of toy "Suc (Suc 0)"] toy_iterate_2 toy_sweep)

lemma toy_iterate_4: "vi_iterate toy (Suc (Suc (Suc (Suc 0)))) = [115699 / 64000, 0]"
  by (simp add: vi_iterate_Suc [of toy "Suc (Suc (Suc 0))"] toy_iterate_3 toy_sweep)

lemma toy_iterate_5:
  "vi_iterate toy (Suc (Suc (Suc (Suc (Suc 0))))) = [4758281 / 2560000, 0]"
  by (simp add: vi_iterate_Suc [of toy "Suc (Suc (Suc (Suc 0)))"] toy_iterate_4 toy_sweep)

lemma toy_change:
  "sweep_change toy k = \<bar>vi_iterate toy (Suc k) ! 0 - vi_iterate toy k ! 0\<bar>"
proof -
  have two: "length (mdp_s toy) = Suc (Suc 0)" by (simp add: toy_def)
  have "vi_iterate toy j ! Suc 0 = 0" for j
  proof (induction j)
    case 0
    show ?case by (simp add: toy_iterate_0)
  next
    case (Suc j)
    have "length (vi_iterate toy j) = Suc (Suc 0)" using vi_iterate_length [of toy j] two by simp
    then obtain x y where xy: "vi_iterate toy j = [x, y]"
      by (cases "vi_iterate toy j"; cases "tl (vi_iterate toy j)") auto
    with Suc show ?case by (simp add: vi_iterate_Suc toy_sweep)
  qed
  then show ?thesis
    by (simp add: sweep_change_def two lessThan_Suc)
qed

text \<open>
  C2 (value iteration). \<open>vi_iterate m k\<close> is the value vector after \<open>k\<close> in-place sweeps
  from the zero vector, each sweep setting the swept states, in index order, to
  \<open>r(s) + discount * max_a sum_s' T(s, a, s') * V(s')\<close>; \<open>sweep_change m k\<close> is the maximum
  absolute change of sweep \<open>k + 1\<close> against the vector before it. On a model of the right
  shapes with a non-negative discount, \<open>valueIteration\<close> with no argument runs with
  epsilon .1; it returns the iterate of the first sweep whose change is at most epsilon,
  and it does not return when no sweep has such a change.
\<close>

theorem valueIteration_gauss_seidel:
  assumes "well_shaped m" and "0 \<le> discount m"
  shows "valueIteration m None = valueIteration m (Some (1 / 10)) \<and>
    (\<forall>k. sweep_change m k \<le> eps \<and> (\<forall>j < k. \<not> sweep_change m j \<le> eps) \<longrightarrow>
       valueIteration m (Some eps) = Some (Inr (m\<lparr>mdp_values := Some (vi_iterate m (Suc k))\<rparr>))) \<and>
    ((\<forall>k. \<not> sweep_change m k \<le> eps) \<longrightarrow> valueIteration m (Some eps) = None)"
proof (intro conjI allI impI)
  show "valueIteration m None = valueIteration m (Some (1 / 10))"
    by (simp add: valueIteration_def)
next
  fix k
  assume "sweep_change m k \<le> eps \<and> (\<forall>j < k. \<not> sweep_change m j \<le> eps)"
  then have "vi_loop m eps (vi_iterate m 0) = Some (Inr (vi_iterate m (Suc (0 + k))))"
    using assms by (intro vi_loop_stops) simp_all
  then show "valueIteration m (Some eps) =
      Some (Inr (m\<lparr>mdp_values := Some (vi_iterate m (Suc k))\<rparr>))"
    by (simp add: valueIteration_def vi_iterate_def well_shaped_len [OF assms(1)])
next
  assume "\<forall>k. \<not> sweep_change m k \<le> eps"
  with assms have "vi_loop m eps (vi_iterate m 0) = None" by (rule vi_loop_diverges)
  then show "valueIteration m (Some eps) = None"
    by (simp add: valueIteration_def vi_iterate_def well_shaped_len [OF assms(1)])
qed

theorem valueIteration_toy_witness:
  "well_shaped toy \<and> 0 \<le> discount toy \<and>
   sweep_change toy 4 \<le> 1 / 10 \<and> \<not> sweep_change toy 3 \<le> 1 / 10 \<and>
   valueIteration toy None = Some (Inr (toy\<lparr>mdp_values := Some [4758281 / 2560000, 0]\<rparr>))"
proof -
  have stop: "sweep_change toy 4 \<le> 1 / 10"
    by (simp add: toy_change eval_nat_numeral toy_iterate_4 toy_iterate_5)
  have before: "\<forall>j < 4. \<not> sweep_change toy j \<le> 1 / 10"
    by (simp add: toy_change eval_nat_numeral All_less_Suc toy_iterate_0 toy_iterate_1
        toy_iterate_2 toy_iterate_3 toy_iterate_4)
  from valueIteration_gauss_seidel [OF toy_well_shaped toy_discount, of "1 / 10"] stop before
  have "valueIteration toy None =
      Some (Inr (toy\<lparr>mdp_values := Some (vi_iterate toy (Suc 4))\<rparr>))"
    by simp
  then show ?thesis
    using stop before toy_well_shaped toy_discount
    by (simp add: eval_nat_numeral toy_iterate_5)
qed

section \<open>extractPolicy computes the softmax of the action values\<close>

lemma np_sum_Fin: "np_sum (map Fin xs) = Fin (sum_list xs)"
  by (induction xs) simp_all

lemma sum_list_exp_pos:
  fixes f :: "'a \<Rightarrow> real"
  shows "xs \<noteq> [] \<Longrightarrow> 0 < (\<Sum>x\<leftarrow>xs. exp (f x))"
proof (induction xs)
  case Nil
  then show ?case by simp
next
  case (Cons x xs)
  show ?case
  proof (cases "xs = []")
    case True
    then show ?thesis by simp
  next
    case False
    with Cons.IH have "0 < (\<Sum>x\<leftarrow>xs. exp (f x))" by simp
    then show ?thesis by (simp add: add_pos_pos)
  qed
qed

lemma softmax_Fin:
  assumes "q \<noteq> []" and "0 < tau"
  shows "softmax tau q =
    Inr (map (\<lambda>x. Fin (exp ((x - Max (set q)) / tau) /
                        (\<Sum>y\<leftarrow>q. exp ((y - Max (set q)) / tau)))) q)"
proof -
  let ?M = "Max (set q)"
  have one: "np_exp (np_div (Fin (x - ?M)) (Fin tau)) = Fin (exp ((x - ?M) / tau))"
    if "x \<in> set q" for x
  proof -
    from that have "x \<le> ?M" by simp
    with assms(2) have "(x - ?M) / tau \<le> 0" by (simp add: divide_le_0_iff)
    then have "np_exp (Fin ((x - ?M) / tau)) = Fin (exp ((x - ?M) / tau))"
      by (rule np_exp_nonpos)
    moreover from assms(2) have "np_div (Fin (x - ?M)) (Fin tau) = Fin ((x - ?M) / tau)"
      by simp
    ultimately show ?thesis by (simp only:)
  qed
  have ex: "map (\<lambda>x. np_exp (np_div (Fin x) (Fin tau))) (map (\<lambda>x. x - ?M) q) =
      map Fin (map (\<lambda>x. exp ((x - ?M) / tau)) q)"
    unfolding map_map comp_def by (rule map_cong [OF refl]) (rule one)
  have pos: "0 < (\<Sum>y\<leftarrow>q. exp ((y - ?M) / tau))"
    using assms(1) by (rule sum_list_exp_pos)
  have tot: "np_sum (map Fin (map (\<lambda>x. exp ((x - ?M) / tau)) q)) =
      Fin (\<Sum>y\<leftarrow>q. exp ((y - ?M) / tau))"
    by (simp only: np_sum_Fin)
  show ?thesis
    unfolding softmax_def np_max_Max [OF assms(1)] sum.case Let_def ex tot
    using pos by simp
qed

lemma sum_list_divide:
  fixes f :: "'a \<Rightarrow> real"
  shows "(\<Sum>x\<leftarrow>xs. f x / c) = (\<Sum>x\<leftarrow>xs. f x) / c"
  by (induction xs) (simp_all add: add_divide_distrib)

lemma softmax_sums_to_one:
  assumes "q \<noteq> []"
  shows "np_sum (map (\<lambda>x. Fin (exp ((x - M) / tau) / (\<Sum>y\<leftarrow>q. exp ((y - M) / tau)))) q) = Fin 1"
proof -
  let ?S = "\<Sum>y\<leftarrow>q. exp ((y - M) / tau)"
  have pos: "0 < ?S" using assms by (rule sum_list_exp_pos)
  have "map (\<lambda>x. Fin (exp ((x - M) / tau) / ?S)) q = map Fin (map (\<lambda>x. exp ((x - M) / tau) / ?S) q)"
    by simp
  moreover have "(\<Sum>x\<leftarrow>q. exp ((x - M) / tau) / ?S) = ?S / ?S"
    by (rule sum_list_divide)
  ultimately show ?thesis using pos by (simp only: np_sum_Fin) simp
qed

lemma map_by_index: "map f xs = map (\<lambda>k. f (xs ! k)) [0..<length xs]"
  by (rule nth_equalityI) simp_all

lemma action_values_list:
  assumes ws: "well_shaped m" and len: "length V = length (mdp_s m)"
    and i: "i < length (mdp_s m) - 1"
  shows "map (\<lambda>x. mdp_r m ! i + discount m * x) (map (\<lambda>row. vdot row V) (mdp_t m ! i)) =
         map (action_value_spec m V i) [0..<length (mdp_a m)]"
proof -
  let ?ti = "mdp_t m ! i"
  from ws i have na: "length ?ti = length (mdp_a m)"
    and rows: "\<forall>k < length ?ti. length (?ti ! k) = length V"
    by (simp_all add: well_shaped_def len)
  have "map (\<lambda>x. mdp_r m ! i + discount m * x) (map (\<lambda>row. vdot row V) ?ti) =
      map (\<lambda>k. mdp_r m ! i + discount m * vdot (?ti ! k) V) [0..<length ?ti]"
    by (simp add: map_by_index [of _ ?ti])
  also have "\<dots> = map (action_value_spec m V i) [0..<length (mdp_a m)]"
    unfolding na using rows na
    by (intro map_cong refl) (simp add: action_value_spec_def q_spec_def vdot_sum len)
  finally show ?thesis .
qed

lemma state_policy_softmax:
  assumes ws: "well_shaped m" and vals: "mdp_values m = Some V"
    and len: "length V = length (mdp_s m)" and i: "i < length (mdp_s m) - 1"
    and tau: "0 < tau"
  shows "state_policy m tau i =
    Inr (map (\<lambda>k. Fin (softmax_spec tau (action_value_spec m V i) (length (mdp_a m)) k))
          [0..<length (mdp_a m)])"
proof -
  let ?ti = "mdp_t m ! i" and ?n = "length (mdp_a m)"
  let ?q = "map (action_value_spec m V i) [0..<?n]"
  from ws i have ri: "i < length (mdp_r m)" and ti: "i < length (mdp_t m)"
    and a_ne: "mdp_a m \<noteq> []"
    and rows: "\<forall>k < length ?ti. length (?ti ! k) = length V"
    by (simp_all add: well_shaped_def len)
  have dot: "np_dot ?ti V = Inr (map (\<lambda>row. vdot row V) ?ti)"
    using rows by (rule np_dot_rows)
  have q_ne: "?q \<noteq> []" using a_ne by simp
  have setq: "set ?q = action_value_spec m V i ` {..<?n}" by (simp add: atLeast0LessThan)
  have sumq: "(\<Sum>y\<leftarrow>?q. exp ((y - M) / tau)) =
      (\<Sum>l < ?n. exp ((action_value_spec m V i l - M) / tau))" for M
    by (simp add: interv_sum_list_conv_sum_set_nat atLeast0LessThan comp_def)
  have "state_policy m tau i = softmax tau ?q"
    using ri ti vals dot action_values_list [OF ws len i]
    by (simp add: state_policy_def np_index_nat del: map_map)
  also have "\<dots> = Inr (map (\<lambda>x. Fin (exp ((x - Max (set ?q)) / tau) /
                        (\<Sum>y\<leftarrow>?q. exp ((y - Max (set ?q)) / tau)))) ?q)"
    using q_ne tau by (rule softmax_Fin)
  also have "\<dots> = Inr (map (\<lambda>k. Fin (softmax_spec tau (action_value_spec m V i) ?n k)) [0..<?n])"
    unfolding sumq setq by (simp add: softmax_spec_def comp_def)
  finally show ?thesis .
qed

lemma state_policy_sum:
  assumes ws: "well_shaped m" and len: "length V = length (mdp_s m)"
  shows "np_sum (map (\<lambda>k. Fin (softmax_spec tau (action_value_spec m V i) (length (mdp_a m)) k))
          [0..<length (mdp_a m)]) = Fin 1"
proof -
  let ?n = "length (mdp_a m)"
  let ?q = "map (action_value_spec m V i) [0..<?n]"
  let ?M = "Max (action_value_spec m V i ` {..<?n})"
  have q_ne: "?q \<noteq> []" using ws by (simp add: well_shaped_def)
  have sumq: "(\<Sum>y\<leftarrow>?q. exp ((y - ?M) / tau)) =
      (\<Sum>l < ?n. exp ((action_value_spec m V i l - ?M) / tau))"
    by (simp add: interv_sum_list_conv_sum_set_nat atLeast0LessThan comp_def)
  have eq: "map (\<lambda>k. Fin (softmax_spec tau (action_value_spec m V i) ?n k)) [0..<?n] =
      map (\<lambda>x. Fin (exp ((x - ?M) / tau) / (\<Sum>y\<leftarrow>?q. exp ((y - ?M) / tau)))) ?q"
    unfolding sumq by (simp add: softmax_spec_def comp_def)
  show ?thesis unfolding eq using q_ne by (rule softmax_sums_to_one)
qed

lemma set_row_same_length:
  "i < length pol \<Longrightarrow> length row = length (pol ! i) \<Longrightarrow> set_row pol i row = Inr (pol[i := row])"
  by (simp add: set_row_def)

lemma extract_loop_is_fold:
  assumes ws: "well_shaped m" and vals: "mdp_values m = Some V"
    and len: "length V = length (mdp_s m)" and tau: "0 < tau"
  shows "set ixs \<subseteq> {..<length (mdp_s m) - 1} \<Longrightarrow> length pol = length (mdp_s m) \<Longrightarrow>
         \<forall>j < length pol. length (pol ! j) = length (mdp_a m) \<Longrightarrow>
         extract_loop m tau ixs pol =
           Inr (fold (\<lambda>i p. p[i := map (\<lambda>k. Fin (softmax_spec tau (action_value_spec m V i)
                                  (length (mdp_a m)) k)) [0..<length (mdp_a m)]]) ixs pol)"
proof (induction ixs arbitrary: pol)
  case Nil
  show ?case by simp
next
  case (Cons i ixs)
  let ?row = "map (\<lambda>k. Fin (softmax_spec tau (action_value_spec m V i) (length (mdp_a m)) k))
      [0..<length (mdp_a m)]"
  from Cons.prems have i: "i < length (mdp_s m) - 1" by simp
  then have ip: "i < length pol" using Cons.prems(2) by simp
  have sp: "state_policy m tau i = Inr ?row"
    using ws vals len i tau by (rule state_policy_softmax)
  have sr: "set_row pol i ?row = Inr (pol[i := ?row])"
    using ip Cons.prems(3) by (intro set_row_same_length) simp_all
  have rows: "\<forall>j < length (pol[i := ?row]). length (pol[i := ?row] ! j) = length (mdp_a m)"
    using Cons.prems(3) ip by (auto simp: nth_list_update)
  have "extract_loop m tau ixs (pol[i := ?row]) =
      Inr (fold (\<lambda>i p. p[i := map (\<lambda>k. Fin (softmax_spec tau (action_value_spec m V i)
                                  (length (mdp_a m)) k)) [0..<length (mdp_a m)]]) ixs (pol[i := ?row]))"
    using Cons.prems(1,2) rows by (intro Cons.IH) simp_all
  then show ?case by (simp add: sp sr)
qed

lemma fold_update_upt_nth:
  "k \<le> length p \<Longrightarrow> j < length p \<Longrightarrow>
   fold (\<lambda>i q. q[i := f i]) [0..<k] p ! j = (if j < k then f j else p ! j)"
proof (induction k)
  case 0
  show ?case by simp
next
  case (Suc k)
  have "length (fold (\<lambda>i q. q[i := f i]) [0..<k] p) = length p"
    by (induction k) simp_all
  with Suc show ?case by (simp add: nth_list_update less_Suc_eq)
qed

lemma fold_update_upt_length: "length (fold (\<lambda>i q. q[i := f i]) [0..<k] p) = length p"
  by (induction k) simp_all

lemma extractPolicy_rows:
  assumes ws: "well_shaped m" and vals: "mdp_values m = Some V"
    and len: "length V = length (mdp_s m)" and tau: "0 < tau"
  shows "extractPolicy m (Some tau) =
    Inr (m\<lparr>mdp_policy := Some (map (\<lambda>i. if i < length (mdp_s m) - 1
              then map (\<lambda>k. Fin (softmax_spec tau (action_value_spec m V i) (length (mdp_a m)) k))
                     [0..<length (mdp_a m)]
              else replicate (length (mdp_a m)) (Fin 0)) [0..<length (mdp_s m)])\<rparr>)"
proof -
  let ?n = "length (mdp_s m)"
  let ?zeros = "replicate ?n (replicate (length (mdp_a m)) (Fin 0))"
  let ?f = "\<lambda>i. map (\<lambda>k. Fin (softmax_spec tau (action_value_spec m V i) (length (mdp_a m)) k))
      [0..<length (mdp_a m)]"
  have loop: "extract_loop m tau [0..<?n - 1] ?zeros = Inr (fold (\<lambda>i p. p[i := ?f i]) [0..<?n - 1] ?zeros)"
    using ws vals len tau by (rule extract_loop_is_fold) auto
  have "fold (\<lambda>i p. p[i := ?f i]) [0..<?n - 1] ?zeros =
      map (\<lambda>i. if i < ?n - 1 then ?f i else replicate (length (mdp_a m)) (Fin 0)) [0..<?n]"
    by (rule nth_equalityI) (simp_all add: fold_update_upt_length fold_update_upt_nth)
  with loop show ?thesis by (simp add: extractPolicy_def well_shaped_len [OF ws])
qed

section \<open>What the two loops leave unchanged\<close>

lemma sweep_frame:
  "sweep m ixs V = Inr V' \<Longrightarrow> length V' = length V \<and> (\<forall>j. j \<notin> set ixs \<longrightarrow> V' ! j = V ! j)"
proof (induction ixs arbitrary: V)
  case Nil
  then show ?case by simp
next
  case (Cons i ixs)
  from Cons.prems obtain v where "backup m V i = Inr v"
    and "i < length V" and rest: "sweep m ixs (V[i := v]) = Inr V'"
    by (auto split: sum.splits if_splits)
  from Cons.IH [OF rest] show ?case by auto
qed

lemma set_row_frame:
  "set_row pol i row = Inr pol' \<Longrightarrow> length pol' = length pol \<and> (\<forall>j. j \<noteq> i \<longrightarrow> pol' ! j = pol ! j)"
  by (auto simp: set_row_def split: if_splits)

lemma extract_loop_frame:
  "extract_loop m tau ixs pol = Inr pol' \<Longrightarrow>
   length pol' = length pol \<and> (\<forall>j. j \<notin> set ixs \<longrightarrow> pol' ! j = pol ! j)"
proof (induction ixs arbitrary: pol)
  case Nil
  then show ?case by simp
next
  case (Cons i ixs)
  from Cons.prems obtain row pol1 where "state_policy m tau i = Inr row"
    and sr: "set_row pol i row = Inr pol1" and rest: "extract_loop m tau ixs pol1 = Inr pol'"
    by (auto split: sum.splits)
  from Cons.IH [OF rest] set_row_frame [OF sr] show ?case by auto
qed

lemma vi_loop_frame:
  assumes ret: "vi_loop m eps V = Some res"
  shows "\<forall>V'. res = Inr V' \<longrightarrow>
     length V' = length V \<and> V' ! (length (mdp_s m) - 1) = V ! (length (mdp_s m) - 1)"
proof (rule vi_loop.raw_induct
    [where P = "\<lambda>m eps V res. \<forall>V'. res = Inr V' \<longrightarrow>
       length V' = length V \<and> V' ! (length (mdp_s m) - 1) = V ! (length (mdp_s m) - 1)",
      OF _ ret])
  fix loop :: "'a mdp_scheme \<Rightarrow> real \<Rightarrow> real list \<Rightarrow> (py_error + real list) option"
  fix m eps V res
  assume IH: "\<And>m' eps' W y. loop m' eps' W = Some y \<Longrightarrow>
      \<forall>V'. y = Inr V' \<longrightarrow>
        length V' = length W \<and> V' ! (length (mdp_s m') - 1) = W ! (length (mdp_s m') - 1)"
  assume body: "(case sweep m [0..<length (mdp_s m) - 1] V of
        Inl e \<Rightarrow> Some (Inl e)
      | Inr V' \<Rightarrow>
          (case max_abs_diff V' V of
             Inl e \<Rightarrow> Some (Inl e)
           | Inr d \<Rightarrow> if d \<le> eps then Some (Inr V') else loop m eps V')) = Some res"
  show "\<forall>V'. res = Inr V' \<longrightarrow>
      length V' = length V \<and> V' ! (length (mdp_s m) - 1) = V ! (length (mdp_s m) - 1)"
  proof (intro allI impI)
    fix V'
    assume res: "res = Inr V'"
    from body res obtain V1 d where sw: "sweep m [0..<length (mdp_s m) - 1] V = Inr V1"
      and "max_abs_diff V1 V = Inr d"
      and fin: "if d \<le> eps then V' = V1 else loop m eps V1 = Some (Inr V')"
      by (auto split: sum.splits if_splits)
    from sweep_frame [OF sw]
    have f1: "length V1 = length V \<and> V1 ! (length (mdp_s m) - 1) = V ! (length (mdp_s m) - 1)"
      by simp
    show "length V' = length V \<and> V' ! (length (mdp_s m) - 1) = V ! (length (mdp_s m) - 1)"
    proof (cases "d \<le> eps")
      case True
      with fin f1 show ?thesis by simp
    next
      case False
      with fin have "loop m eps V1 = Some (Inr V')" by simp
      from IH [OF this] f1 show ?thesis by simp
    qed
  qed
qed

subsection \<open>The policy of the two-state model\<close>

lemma toy_solved_well_shaped: "well_shaped toy_solved"
  using toy_well_shaped by (simp add: well_shaped_def toy_solved_def)

lemma toy_solved_values: "mdp_values toy_solved = Some [1, 0]"
  by (simp add: toy_solved_def)

lemma toy_solved_sizes: "length (mdp_s toy_solved) = 2" "length (mdp_a toy_solved) = 2"
  by (simp_all add: toy_solved_def toy_def)

lemma toy_action_values:
  "action_value_spec toy_solved [1, 0] 0 0 = 1"
  "action_value_spec toy_solved [1, 0] 0 (Suc 0) = 59 / 40"
  by (simp_all add: action_value_spec_def q_spec_def toy_solved_def toy_def lessThan_Suc
      numeral_2_eq_2)

lemma toy_softmax:
  "softmax_spec tau (action_value_spec toy_solved [1, 0] 0) 2 0 =
     exp (- (19 / 40) / tau) / (exp (- (19 / 40) / tau) + 1)"
  "softmax_spec tau (action_value_spec toy_solved [1, 0] 0) 2 (Suc 0) =
     1 / (exp (- (19 / 40) / tau) + 1)"
  by (simp_all add: softmax_spec_def toy_action_values lessThan_Suc numeral_2_eq_2 add.commute)

lemma toy_policy_row:
  "map (\<lambda>k. Fin (softmax_spec tau (action_value_spec toy_solved [1, 0] 0)
          (length (mdp_a toy_solved)) k)) [0..<length (mdp_a toy_solved)] =
   [Fin (exp (- (19 / 40) / tau) / (exp (- (19 / 40) / tau) + 1)),
    Fin (1 / (exp (- (19 / 40) / tau) + 1))]"
proof -
  have "[0..<2] = [0, Suc 0]" by (simp add: numeral_2_eq_2)
  then show ?thesis by (simp add: toy_solved_sizes toy_softmax)
qed

lemma toy_large_well_shaped: "well_shaped toy_large"
  using toy_well_shaped by (simp add: well_shaped_def toy_large_def)

lemma toy_large_values: "mdp_values toy_large = Some [2000, 0]"
  by (simp add: toy_large_def)

lemma toy_large_sizes: "length (mdp_s toy_large) = 2" "length (mdp_a toy_large) = 2"
  by (simp_all add: toy_large_def toy_def)

lemma toy_large_action_values:
  "action_value_spec toy_large [2000, 0] 0 0 = 1"
  "action_value_spec toy_large [2000, 0] 0 (Suc 0) = 951"
  by (simp_all add: action_value_spec_def q_spec_def toy_large_def toy_def lessThan_Suc
      numeral_2_eq_2)

lemma toy_large_softmax:
  "softmax_spec tau (action_value_spec toy_large [2000, 0] 0) 2 0 =
     exp (- 950 / tau) / (exp (- 950 / tau) + 1)"
  "softmax_spec tau (action_value_spec toy_large [2000, 0] 0) 2 (Suc 0) =
     1 / (exp (- 950 / tau) + 1)"
  by (simp_all add: softmax_spec_def toy_large_action_values lessThan_Suc numeral_2_eq_2
      add.commute)

lemma toy_large_policy_row:
  "map (\<lambda>k. Fin (softmax_spec tau (action_value_spec toy_large [2000, 0] 0)
          (length (mdp_a toy_large)) k)) [0..<length (mdp_a toy_large)] =
   [Fin (exp (- 950 / tau) / (exp (- 950 / tau) + 1)),
    Fin (1 / (exp (- 950 / tau) + 1))]"
proof -
  have "[0..<2] = [0, Suc 0]" by (simp add: numeral_2_eq_2)
  then show ?thesis by (simp add: toy_large_sizes toy_large_softmax)
qed

lemma shifted_exponent:
  fixes q :: "nat \<Rightarrow> real"
  assumes "0 < tau" and "k < n"
  shows "(q k - Max (q ` {..<n})) / tau \<le> 0"
    and "np_exp (np_div (Fin (q k - Max (q ` {..<n}))) (Fin tau)) =
         Fin (exp ((q k - Max (q ` {..<n})) / tau))"
proof -
  from assms(2) have "q k \<le> Max (q ` {..<n})" by (intro Max_ge) simp_all
  with assms(1) show le: "(q k - Max (q ` {..<n})) / tau \<le> 0"
    by (simp add: divide_le_0_iff)
  then have "np_exp (Fin ((q k - Max (q ` {..<n})) / tau)) =
      Fin (exp ((q k - Max (q ` {..<n})) / tau))"
    by (rule np_exp_nonpos)
  moreover from assms(1)
  have "np_div (Fin (q k - Max (q ` {..<n}))) (Fin tau) = Fin ((q k - Max (q ` {..<n})) / tau)"
    by simp
  ultimately show "np_exp (np_div (Fin (q k - Max (q ` {..<n}))) (Fin tau)) =
         Fin (exp ((q k - Max (q ` {..<n})) / tau))"
    by (simp only:)
qed

text \<open>
  C7 (policy extraction). On a model of the right shapes with a value vector of the
  length of the state array and a positive temperature, \<open>extractPolicy\<close> raises no
  exception, and the policy row of every state it processes (every state but the last)
  is the softmax, with the maximum subtracted before the exponential, of the action
  values \<open>Q(s, a) = r(s) + discount * sum_s' T(s, a, s') * V(s')\<close>; the row sums to 1.
  The subtraction makes every exponent at most 0, so that no call of \<open>np.exp\<close> in the
  loop overflows, however large the action values are: each returns the finite
  exponential of its argument.
\<close>

theorem extractPolicy_softmax:
  assumes "well_shaped m" and "mdp_values m = Some V" and "length V = length (mdp_s m)"
    and "0 < tau"
  shows "\<exists>pol. extractPolicy m (Some tau) = Inr (m\<lparr>mdp_policy := Some pol\<rparr>) \<and>
     length pol = length (mdp_s m) \<and>
     (\<forall>i < length (mdp_s m) - 1.
        pol ! i = map (\<lambda>k. Fin (softmax_spec tau (action_value_spec m V i) (length (mdp_a m)) k))
                    [0..<length (mdp_a m)] \<and>
        np_sum (pol ! i) = Fin 1 \<and>
        (\<forall>k < length (mdp_a m).
           (action_value_spec m V i k -
              Max (action_value_spec m V i ` {..<length (mdp_a m)})) / tau \<le> 0 \<and>
           np_exp (np_div (Fin (action_value_spec m V i k -
                Max (action_value_spec m V i ` {..<length (mdp_a m)}))) (Fin tau)) =
             Fin (exp ((action_value_spec m V i k -
                Max (action_value_spec m V i ` {..<length (mdp_a m)})) / tau))))"
proof -
  let ?pol = "map (\<lambda>i. if i < length (mdp_s m) - 1
              then map (\<lambda>k. Fin (softmax_spec tau (action_value_spec m V i) (length (mdp_a m)) k))
                     [0..<length (mdp_a m)]
              else replicate (length (mdp_a m)) (Fin 0)) [0..<length (mdp_s m)]"
  have "extractPolicy m (Some tau) = Inr (m\<lparr>mdp_policy := Some ?pol\<rparr>)"
    using assms by (rule extractPolicy_rows)
  moreover have "length ?pol = length (mdp_s m)" by simp
  moreover have "\<forall>i < length (mdp_s m) - 1.
        ?pol ! i = map (\<lambda>k. Fin (softmax_spec tau (action_value_spec m V i) (length (mdp_a m)) k))
                    [0..<length (mdp_a m)] \<and>
        np_sum (?pol ! i) = Fin 1 \<and>
        (\<forall>k < length (mdp_a m).
           (action_value_spec m V i k -
              Max (action_value_spec m V i ` {..<length (mdp_a m)})) / tau \<le> 0 \<and>
           np_exp (np_div (Fin (action_value_spec m V i k -
                Max (action_value_spec m V i ` {..<length (mdp_a m)}))) (Fin tau)) =
             Fin (exp ((action_value_spec m V i k -
                Max (action_value_spec m V i ` {..<length (mdp_a m)})) / tau)))"
  proof (intro allI impI conjI)
    fix i assume i: "i < length (mdp_s m) - 1"
    then show "?pol ! i =
        map (\<lambda>k. Fin (softmax_spec tau (action_value_spec m V i) (length (mdp_a m)) k))
          [0..<length (mdp_a m)]"
      by simp
    from i state_policy_sum [OF assms(1,3)] show "np_sum (?pol ! i) = Fin 1" by simp
    fix k assume k: "k < length (mdp_a m)"
    from assms(4) k
    show "(action_value_spec m V i k -
              Max (action_value_spec m V i ` {..<length (mdp_a m)})) / tau \<le> 0"
      by (rule shifted_exponent(1))
    from assms(4) k
    show "np_exp (np_div (Fin (action_value_spec m V i k -
                Max (action_value_spec m V i ` {..<length (mdp_a m)}))) (Fin tau)) =
             Fin (exp ((action_value_spec m V i k -
                Max (action_value_spec m V i ` {..<length (mdp_a m)})) / tau))"
      by (rule shifted_exponent(2))
  qed
  ultimately show ?thesis by blast
qed

text \<open>
  On the two-state model with the values 2000 and 0 and temperature .1 the action values
  of state 0 are 1 and 951: the row is the softmax of the exponents -9500 and 0.
\<close>

theorem extractPolicy_softmax_witness:
  "well_shaped toy_large \<and> mdp_values toy_large = Some [2000, 0] \<and>
   length [2000, 0 :: real] = length (mdp_s toy_large) \<and> (0 :: real) < 1 / 10 \<and>
   (\<exists>pol. extractPolicy toy_large (Some (1 / 10)) = Inr (toy_large\<lparr>mdp_policy := Some pol\<rparr>) \<and>
      pol ! 0 = [Fin (exp (- 9500) / (exp (- 9500) + 1)),
                 Fin (1 / (exp (- 9500) + 1))] \<and>
      np_sum (pol ! 0) = Fin 1)"
proof -
  have len: "length [2000, 0 :: real] = length (mdp_s toy_large)"
    by (simp add: toy_large_sizes)
  have tau: "(0 :: real) < 1 / 10" by simp
  from extractPolicy_softmax [OF toy_large_well_shaped toy_large_values len tau]
  obtain pol where
    ex: "extractPolicy toy_large (Some (1 / 10)) = Inr (toy_large\<lparr>mdp_policy := Some pol\<rparr>)"
    and rows: "\<forall>i < length (mdp_s toy_large) - 1.
        pol ! i = map (\<lambda>k. Fin (softmax_spec (1 / 10) (action_value_spec toy_large [2000, 0] i)
                       (length (mdp_a toy_large)) k)) [0..<length (mdp_a toy_large)] \<and>
        np_sum (pol ! i) = Fin 1"
    by blast
  have "0 < length (mdp_s toy_large) - 1" by (simp add: toy_large_sizes)
  with rows have "pol ! 0 =
      map (\<lambda>k. Fin (softmax_spec (1 / 10) (action_value_spec toy_large [2000, 0] 0)
                       (length (mdp_a toy_large)) k)) [0..<length (mdp_a toy_large)]"
    and "np_sum (pol ! 0) = Fin 1" by blast+
  with ex toy_large_policy_row [of "1 / 10"] toy_large_well_shaped toy_large_values len
  show ?thesis by auto
qed

subsection \<open>What the subtraction of the maximum is for\<close>

text \<open>
  On the same input the exponential of the larger action value itself, 951 / .1,
  overflows: without the subtraction the row would hold inf / inf. With a negative
  temperature the subtraction makes every exponent at least 0 instead, and the row of
  state 0 is \<open>[nan, 0]\<close>: the temperature of the theorem is positive.
\<close>

lemma unshifted_exponential_overflows:
  "np_exp (np_div (Fin 951) (Fin (1 / 10))) = PInf"
  "np_div PInf (np_sum [np_exp (np_div (Fin 1) (Fin (1 / 10))), PInf]) = NaN"
proof -
  have "np_div (Fin 951) (Fin (1 / 10)) = Fin 9510" by simp
  moreover have "np_exp (Fin 9510) = PInf" by (rule np_exp_overflow) simp
  ultimately show "np_exp (np_div (Fin 951) (Fin (1 / 10))) = PInf" by (simp only:)
  have "np_sum [np_exp (np_div (Fin 1) (Fin (1 / 10))), PInf] = PInf"
    by simp
  then show "np_div PInf (np_sum [np_exp (np_div (Fin 1) (Fin (1 / 10))), PInf]) = NaN"
    by (simp only: np_div.simps)
qed

lemma softmax_negative_tau: "softmax (- (1 / 10)) [1, 951] = Inr [NaN, Fin 0]"
proof -
  have big: "np_exp (Fin 9500) = PInf" by (rule np_exp_overflow) simp
  have one: "np_exp (Fin 0) = Fin 1" using np_exp_nonpos [of 0] by simp
  show ?thesis
    by (simp add: softmax_def np_max_def big one del: np_exp.simps)
qed

lemma extractPolicy_negative_tau:
  "extractPolicy toy_large (Some (- (1 / 10))) =
     Inr (toy_large\<lparr>mdp_policy := Some [[NaN, Fin 0], [Fin 0, Fin 0]]\<rparr>)"
proof -
  have row: "state_policy toy_large (- (1 / 10)) 0 = Inr [NaN, Fin 0]"
    by (simp add: state_policy_def toy_large_def toy_def np_index_def np_dot_def vdot_def
        softmax_negative_tau)
  show ?thesis
    by (simp add: extractPolicy_def well_shaped_len [OF toy_large_well_shaped] toy_large_sizes
        row set_row_def numeral_2_eq_2)
qed

text \<open>
  C8 (the default temperature), as the code has it: \<open>extractPolicy\<close> called without a
  temperature is \<open>extractPolicy\<close> called with temperature .1, and on a model of the right
  shapes its rows are the softmax with temperature .1.
\<close>

theorem extractPolicy_default_tau:
  "extractPolicy m None = extractPolicy m (Some (1 / 10)) \<and>
   (well_shaped m \<and> mdp_values m = Some V \<and> length V = length (mdp_s m) \<longrightarrow>
      (\<exists>pol. extractPolicy m None = Inr (m\<lparr>mdp_policy := Some pol\<rparr>) \<and>
         (\<forall>i < length (mdp_s m) - 1.
            pol ! i = map (\<lambda>k. Fin (softmax_spec (1 / 10) (action_value_spec m V i)
                                   (length (mdp_a m)) k)) [0..<length (mdp_a m)])))"
proof (intro conjI impI)
  show def: "extractPolicy m None = extractPolicy m (Some (1 / 10))"
    by (simp add: extractPolicy_def)
  assume "well_shaped m \<and> mdp_values m = Some V \<and> length V = length (mdp_s m)"
  then have "extractPolicy m (Some (1 / 10)) =
    Inr (m\<lparr>mdp_policy := Some (map (\<lambda>i. if i < length (mdp_s m) - 1
              then map (\<lambda>k. Fin (softmax_spec (1 / 10) (action_value_spec m V i) (length (mdp_a m)) k))
                     [0..<length (mdp_a m)]
              else replicate (length (mdp_a m)) (Fin 0)) [0..<length (mdp_s m)])\<rparr>)"
    by (intro extractPolicy_rows) simp_all
  then show "\<exists>pol. extractPolicy m None = Inr (m\<lparr>mdp_policy := Some pol\<rparr>) \<and>
         (\<forall>i < length (mdp_s m) - 1.
            pol ! i = map (\<lambda>k. Fin (softmax_spec (1 / 10) (action_value_spec m V i)
                                   (length (mdp_a m)) k)) [0..<length (mdp_a m)])"
    unfolding def by (intro exI conjI, assumption) simp
qed

theorem extractPolicy_default_tau_witness:
  "well_shaped toy_solved \<and> mdp_values toy_solved = Some [1, 0] \<and>
   length [1, 0 :: real] = length (mdp_s toy_solved) \<and>
   (\<exists>pol. extractPolicy toy_solved None = Inr (toy_solved\<lparr>mdp_policy := Some pol\<rparr>) \<and>
      pol ! 0 = [Fin (exp (- (19 / 4)) / (exp (- (19 / 4)) + 1)),
                 Fin (1 / (exp (- (19 / 4)) + 1))])"
proof -
  have len: "length [1, 0 :: real] = length (mdp_s toy_solved)"
    by (simp add: toy_solved_sizes)
  from extractPolicy_default_tau [of toy_solved "[1, 0]"] toy_solved_well_shaped
    toy_solved_values len
  obtain pol where ex: "extractPolicy toy_solved None = Inr (toy_solved\<lparr>mdp_policy := Some pol\<rparr>)"
    and rows: "\<forall>i < length (mdp_s toy_solved) - 1.
        pol ! i = map (\<lambda>k. Fin (softmax_spec (1 / 10) (action_value_spec toy_solved [1, 0] i)
                       (length (mdp_a toy_solved)) k)) [0..<length (mdp_a toy_solved)]"
    by blast
  have "0 < length (mdp_s toy_solved) - 1" by (simp add: toy_solved_sizes)
  with rows have "pol ! 0 = map (\<lambda>k. Fin (softmax_spec (1 / 10) (action_value_spec toy_solved [1, 0] 0)
                       (length (mdp_a toy_solved)) k)) [0..<length (mdp_a toy_solved)]"
    by blast
  with ex toy_policy_row [of "1 / 10"] toy_solved_well_shaped toy_solved_values len
  show ?thesis by auto
qed

lemma toy_extractPolicy:
  assumes "0 < tau"
  shows "extractPolicy toy_solved (Some tau) =
    Inr (toy_solved\<lparr>mdp_policy := Some
      [[Fin (exp (- (19 / 40) / tau) / (exp (- (19 / 40) / tau) + 1)),
        Fin (1 / (exp (- (19 / 40) / tau) + 1))],
       [Fin 0, Fin 0]]\<rparr>)"
proof -
  have len: "length [1, 0 :: real] = length (mdp_s toy_solved)"
    by (simp add: toy_solved_sizes)
  have two: "[0..<2] = [0, Suc 0]" by (simp add: numeral_2_eq_2)
  show ?thesis
    unfolding extractPolicy_rows [OF toy_solved_well_shaped toy_solved_values len assms]
    using toy_policy_row [of tau]
    by (simp add: toy_solved_sizes two numeral_2_eq_2)
qed

text \<open>
  On the two-state model the policy computed without a temperature argument differs
  from the policy computed with temperature 1.
\<close>

theorem default_tau_counterexample:
  "extractPolicy toy_solved None \<noteq> extractPolicy toy_solved (Some 1)"
proof
  assume eq: "extractPolicy toy_solved None = extractPolicy toy_solved (Some 1)"
  have "extractPolicy toy_solved None = extractPolicy toy_solved (Some (1 / 10))"
    by (simp add: extractPolicy_def)
  with eq have "extractPolicy toy_solved (Some (1 / 10)) = extractPolicy toy_solved (Some 1)"
    by simp
  then have "mdp_policy (toy_solved\<lparr>mdp_policy := Some
      [[Fin (exp (- (19 / 40) / (1 / 10)) / (exp (- (19 / 40) / (1 / 10)) + 1)),
        Fin (1 / (exp (- (19 / 40) / (1 / 10)) + 1))],
       [Fin 0, Fin 0]]\<rparr>) =
     mdp_policy (toy_solved\<lparr>mdp_policy := Some
      [[Fin (exp (- (19 / 40) / 1) / (exp (- (19 / 40) / 1) + 1)),
        Fin (1 / (exp (- (19 / 40) / 1) + 1))],
       [Fin 0, Fin 0]]\<rparr>)"
    by (simp only: toy_extractPolicy [of "1 / 10"] toy_extractPolicy [of 1]) simp
  then have "1 / (exp (- (19 / 40) / (1 / 10)) + 1) = 1 / (exp (- (19 / 40) / 1) + (1 :: real))"
    by simp
  then have "exp (- (19 / 40) / (1 / 10)) = exp (- (19 / 40) / (1 :: real))"
    by (simp add: add_pos_pos)
  then show False by simp
qed

section \<open>The last state and the end game states\<close>

lemma death_row_length: "length (death_row ns) = ns"
  by (simp add: death_row_def)

lemma betting_model_well_shaped: "well_shaped (betting_model ph)"
proof -
  have "length (mdp_t (betting_model ph) ! i ! k) = 102" if "i < 101" and "k < 101" for i k
    using that betting_model_t_nth [of i k ph] by (simp add: death_row_length)
  moreover have "length (mdp_t (betting_model ph) ! i) = 101" if "i < 101" for i
    using that by (simp add: betting_model_t_row_length)
  ultimately show ?thesis
    by (simp add: well_shaped_def betting_model_s betting_model_a betting_model_r
        betting_model_t_length np_arange_def)
qed

lemma betting_sizes:
  "length (mdp_s (betting_model ph)) = 102" "length (mdp_a (betting_model ph)) = 101"
  by (simp_all add: betting_model_s betting_model_a np_arange_def)

lemma toy_valueIteration:
  "valueIteration toy None = Some (Inr (toy\<lparr>mdp_values := Some [4758281 / 2560000, 0]\<rparr>))"
proof -
  have stop: "sweep_change toy (0 + 4) \<le> 1 / 10"
    by (simp add: toy_change eval_nat_numeral toy_iterate_4 toy_iterate_5)
  have before: "\<forall>l < 4. \<not> sweep_change toy (0 + l) \<le> 1 / 10"
    by (simp add: toy_change eval_nat_numeral All_less_Suc toy_iterate_0 toy_iterate_1
        toy_iterate_2 toy_iterate_3 toy_iterate_4)
  have "vi_loop toy (1 / 10) (vi_iterate toy 0) = Some (Inr (vi_iterate toy (Suc (0 + 4))))"
    using toy_well_shaped toy_discount stop before by (rule vi_loop_stops)
  moreover have "vi_iterate toy 0 = replicate (length (mdp_s toy)) 0"
    by (simp add: vi_iterate_def)
  moreover have "vi_iterate toy (Suc (0 + 4)) = [4758281 / 2560000, 0]"
    by (simp add: eval_nat_numeral toy_iterate_5)
  ultimately have "vi_loop toy (1 / 10) (replicate (length (mdp_s toy)) 0) =
      Some (Inr [4758281 / 2560000, 0])"
    by simp
  then show ?thesis by (simp add: valueIteration_def well_shaped_len [OF toy_well_shaped])
qed

text \<open>
  C3 (states outside the loops), as the code has it. Both loops run over
  \<open>range(len(self.s) - 1)\<close>: the one state they leave out is the last of the state
  array. A sweep returns its value unchanged, so \<open>valueIteration\<close> returns it as the
  initial 0, and \<open>extractPolicy\<close> leaves its policy row all zero. In the betting game
  the last state is the death state 101, the only state \<open>isTerminal\<close> accepts; the
  end game states 0 and 100 are among the indices of both loops.
\<close>

theorem last_state_excluded:
  assumes "mdp_s m \<noteq> []"
  shows "(sweep m [0..<length (mdp_s m) - 1] V = Inr V' \<longrightarrow>
           length V' = length V \<and> V' ! (length (mdp_s m) - 1) = V ! (length (mdp_s m) - 1)) \<and>
         (valueIteration m eps = Some (Inr m1) \<longrightarrow>
           (\<exists>W. mdp_values m1 = Some W \<and> length W = length (mdp_s m) \<and>
                W ! (length (mdp_s m) - 1) = 0)) \<and>
         (extractPolicy m tau = Inr m2 \<longrightarrow>
           (\<exists>pol. mdp_policy m2 = Some pol \<and> length pol = length (mdp_s m) \<and>
                pol ! (length (mdp_s m) - 1) = replicate (length (mdp_a m)) (Fin 0))) \<and>
         (isTerminal (betting_model ph) st \<longleftrightarrow>
           st = int (length (mdp_s (betting_model ph)) - 1)) \<and>
         0 \<in> set [0..<length (mdp_s (betting_model ph)) - 1] \<and>
         100 \<in> set [0..<length (mdp_s (betting_model ph)) - 1]"
proof (intro conjI impI)
  let ?n = "length (mdp_s m)"
  from assms have pos: "?n - 1 < ?n" by (cases "mdp_s m") simp_all
  {
    assume "sweep m [0..<?n - 1] V = Inr V'"
    from sweep_frame [OF this]
    show "length V' = length V" and "V' ! (?n - 1) = V ! (?n - 1)" by simp_all
  }
  {
    assume ret: "valueIteration m eps = Some (Inr m1)"
    define e where "e = (case eps of None \<Rightarrow> 1 / 10 | Some x \<Rightarrow> x)"
    from ret obtain W where loop: "vi_loop m e (replicate ?n 0) = Some (Inr W)"
      and m1: "m1 = m\<lparr>mdp_values := Some W\<rparr>"
      by (auto simp: valueIteration_def e_def np_len_elems [OF assms]
          split: option.splits sum.splits)
    from vi_loop_frame [OF loop] pos
    have "length W = ?n \<and> W ! (?n - 1) = 0" by simp
    with m1 show "\<exists>W. mdp_values m1 = Some W \<and> length W = ?n \<and> W ! (?n - 1) = 0"
      by simp
  }
  {
    assume ret: "extractPolicy m tau = Inr m2"
    define t' where "t' = (case tau of None \<Rightarrow> 1 / 10 | Some x \<Rightarrow> x)"
    from ret obtain na where "np_len (a_array m) = Inr na"
      by (auto simp: extractPolicy_def np_len_elems [OF assms] split: sum.splits)
    then have na: "np_len (a_array m) = Inr (length (mdp_a m))" by (rule np_len_Inr)
    from ret obtain pol where
      loop: "extract_loop m t' [0..<?n - 1] (replicate ?n (replicate (length (mdp_a m)) (Fin 0))) = Inr pol"
      and m2: "m2 = m\<lparr>mdp_policy := Some pol\<rparr>"
      by (auto simp: extractPolicy_def t'_def np_len_elems [OF assms] na split: sum.splits)
    from extract_loop_frame [OF loop] pos
    have "length pol = ?n \<and> pol ! (?n - 1) = replicate (length (mdp_a m)) (Fin 0)" by simp
    with m2 show "\<exists>pol. mdp_policy m2 = Some pol \<and> length pol = ?n \<and>
        pol ! (?n - 1) = replicate (length (mdp_a m)) (Fin 0)"
      by simp
  }
  show "isTerminal (betting_model ph) st \<longleftrightarrow> st = int (length (mdp_s (betting_model ph)) - 1)"
    by (simp add: isTerminal_def betting_sizes)
  show "0 \<in> set [0..<length (mdp_s (betting_model ph)) - 1]"
    and "100 \<in> set [0..<length (mdp_s (betting_model ph)) - 1]"
    by (simp_all add: betting_sizes)
qed

theorem last_state_excluded_witness:
  "mdp_s toy \<noteq> [] \<and> mdp_s toy_solved \<noteq> [] \<and>
   valueIteration toy None = Some (Inr (toy\<lparr>mdp_values := Some [4758281 / 2560000, 0]\<rparr>)) \<and>
   [4758281 / 2560000, 0 :: real] ! (length (mdp_s toy) - 1) = 0 \<and>
   (\<exists>pol. extractPolicy toy_solved None = Inr (toy_solved\<lparr>mdp_policy := Some pol\<rparr>) \<and>
      pol ! (length (mdp_s toy_solved) - 1) = [Fin 0, Fin 0])"
proof -
  have ne: "mdp_s toy \<noteq> []" and ne': "mdp_s toy_solved \<noteq> []"
    by (simp_all add: toy_def toy_solved_def)
  from last_state_excluded [OF ne, of _ _ None "toy\<lparr>mdp_values := Some [4758281 / 2560000, 0]\<rparr>"]
    toy_valueIteration
  have v: "[4758281 / 2560000, 0 :: real] ! (length (mdp_s toy) - 1) = 0" by auto
  have "(0 :: real) < 1 / 10" by simp
  from toy_extractPolicy [OF this]
  obtain pol where ex: "extractPolicy toy_solved None = Inr (toy_solved\<lparr>mdp_policy := Some pol\<rparr>)"
    by (auto simp: extractPolicy_def)
  from last_state_excluded [OF ne', of _ _ _ _ None "toy_solved\<lparr>mdp_policy := Some pol\<rparr>"] ex
  have "pol ! (length (mdp_s toy_solved) - 1) = replicate (length (mdp_a toy_solved)) (Fin 0)"
    by auto
  then have "pol ! (length (mdp_s toy_solved) - 1) = [Fin 0, Fin 0]"
    by (simp add: toy_solved_sizes numeral_2_eq_2)
  with ne ne' toy_valueIteration v ex show ?thesis by blast
qed

lemma Max_constant:
  fixes c :: real
  shows "0 < n \<Longrightarrow> Max ((\<lambda>x. c) ` {..<n :: nat}) = c"
proof -
  assume "0 < n"
  then have "0 \<in> {..<n}" by simp
  then have "{..<n} \<noteq> {}" by blast
  then show ?thesis by (simp add: image_constant_conv)
qed

lemma betting_zero_q:
  "q_spec (betting_model ph\<lparr>mdp_values := vs\<rparr>) (replicate 102 0) i k = 0"
  by (simp add: q_spec_def betting_sizes)

lemma betting_first_backup: "backup (betting_model ph) (replicate 102 0) 0 = Inr (- 10)"
proof -
  have q: "q_spec (betting_model ph) (replicate 102 0) 0 k = 0" for k
    by (simp add: q_spec_def betting_sizes)
  have "backup (betting_model ph) (replicate 102 0) 0 = Inr (bellman_spec (betting_model ph) (replicate 102 0) 0)"
    by (rule backup_is_bellman)
      (simp_all add: betting_model_well_shaped betting_sizes betting_model_discount)
  also have "bellman_spec (betting_model ph) (replicate 102 0) 0 = - 10"
    by (simp add: bellman_spec_def q betting_model_r betting_model_discount betting_sizes
        Max_constant)
  finally show ?thesis .
qed

text \<open>
  The end game state 0 of the betting game is inside both loops: the first sweep of
  \<open>valueIteration\<close> changes its value from 0 to -10, and \<open>extractPolicy\<close> gives it the
  uniform row 1/101.
\<close>

lemma betting_first_sweep_end_state:
  "(\<exists>V'. sweep (betting_model (1 / 2)) [0..<length (mdp_s (betting_model (1 / 2))) - 1]
            (replicate 102 0) = Inr V' \<and> (replicate 102 0 :: real list) ! 0 = 0 \<and> V' ! 0 = - 10) \<and>
   (\<exists>pol. extractPolicy (betting_model (1 / 2)\<lparr>mdp_values := Some (replicate 102 0)\<rparr>) None =
            Inr (betting_model (1 / 2)\<lparr>mdp_values := Some (replicate 102 0),
                                         mdp_policy := Some pol\<rparr>) \<and>
          pol ! 0 = replicate 101 (Fin (1 / 101)))"
proof
  let ?bg = "betting_model (1 / 2)"
  let ?V = "replicate 102 (0 :: real)"
  have "sweep ?bg [0..<length (mdp_s ?bg) - 1] ?V = Inr (gauss_seidel_spec ?bg ?V)"
    by (rule sweep_is_gauss_seidel)
      (simp_all add: betting_model_well_shaped betting_sizes betting_model_discount)
  moreover have "gauss_seidel_spec ?bg ?V ! 0 = - 10"
  proof -
    have split: "[0..<length (mdp_s ?bg) - 1] = 0 # [1..<101]"
      by (simp add: betting_sizes upt_conv_Cons)
    have "sweep ?bg (0 # [1..<101]) ?V = Inr (gauss_seidel_spec ?bg ?V)"
      using \<open>sweep ?bg [0..<length (mdp_s ?bg) - 1] ?V = Inr (gauss_seidel_spec ?bg ?V)\<close>
      by (simp only: split)
    then have rest: "sweep ?bg [1..<101] (?V[0 := - 10]) = Inr (gauss_seidel_spec ?bg ?V)"
      by (simp add: betting_first_backup)
    from sweep_frame [OF rest] have "gauss_seidel_spec ?bg ?V ! 0 = (?V[0 := - 10]) ! 0"
      by simp
    then show ?thesis by simp
  qed
  ultimately show "\<exists>V'. sweep ?bg [0..<length (mdp_s ?bg) - 1] ?V = Inr V' \<and>
      ?V ! 0 = 0 \<and> V' ! 0 = - 10"
    by simp
next
  let ?bg = "betting_model (1 / 2)\<lparr>mdp_values := Some (replicate 102 0)\<rparr>"
  let ?V = "replicate 102 (0 :: real)"
  have ws: "well_shaped ?bg"
    using betting_model_well_shaped [of "1 / 2"] by (simp add: well_shaped_def)
  have av: "action_value_spec ?bg ?V 0 k = - 10" for k
    by (simp add: action_value_spec_def betting_zero_q betting_model_r)
  have sm: "softmax_spec (1 / 10) (action_value_spec ?bg ?V 0) 101 k = 1 / 101" for k
    by (simp add: softmax_spec_def av Max_constant)
  let ?pol = "map (\<lambda>i. if i < length (mdp_s ?bg) - 1
              then map (\<lambda>k. Fin (softmax_spec (1 / 10) (action_value_spec ?bg ?V i) (length (mdp_a ?bg)) k))
                     [0..<length (mdp_a ?bg)]
              else replicate (length (mdp_a ?bg)) (Fin 0)) [0..<length (mdp_s ?bg)]"
  have "extractPolicy ?bg (Some (1 / 10)) = Inr (?bg\<lparr>mdp_policy := Some ?pol\<rparr>)"
    using ws by (rule extractPolicy_rows) (simp_all add: betting_sizes)
  moreover have "extractPolicy ?bg None = extractPolicy ?bg (Some (1 / 10))"
    by (simp add: extractPolicy_def)
  ultimately have e1: "extractPolicy ?bg None = Inr (?bg\<lparr>mdp_policy := Some ?pol\<rparr>)"
    by (rule ssubst [rotated])
  have e2: "?pol ! 0 = replicate 101 (Fin (1 / 101))"
    by (simp add: betting_sizes sm map_replicate_const)
  from e1 e2 show "\<exists>pol. extractPolicy ?bg None =
            Inr (betting_model (1 / 2)\<lparr>mdp_values := Some (replicate 102 0),
                                         mdp_policy := Some pol\<rparr>) \<and>
          pol ! 0 = replicate 101 (Fin (1 / 101))"
    by blast
qed

section \<open>The prior and the posterior\<close>

lemma posterior_grid_length: "length posterior_grid = 101"
  by (simp add: posterior_grid_def np_linspace_def)

lemma posterior_grid_nth:
  "i < 101 \<Longrightarrow> posterior_grid ! i = 1 / 100 + real i * (99 / 10000)"
  by (simp add: posterior_grid_def np_linspace_def)

lemma posterior_grid_map:
  "posterior_grid = map (\<lambda>i. 1 / 100 + real i * (99 / 10000)) [0..<101]"
  by (simp add: posterior_grid_def np_linspace_def)

lemma bias_grid_map: "bias_grid = map (\<lambda>i. real i / 100) [0..<101]"
proof -
  have "\<lceil>(101 / 100 - 0) / (1 / 100 :: real)\<rceil> = 101" by simp
  then show ?thesis by (simp add: bias_grid_def np_arange_step_def)
qed

lemma beta_pdf_grid:
  assumes "i < 101"
  shows "beta_pdf B (19 / 10) (19 / 10) (posterior_grid ! i) =
         (posterior_grid ! i) powr (9 / 10) * (1 - posterior_grid ! i) powr (9 / 10) / B"
proof -
  have "0 \<le> posterior_grid ! i" using assms by (simp add: posterior_grid_nth)
  moreover have "real i \<le> 100" using assms by simp
  then have "posterior_grid ! i \<le> 1" using assms by (simp add: posterior_grid_nth)
  ultimately show ?thesis by (simp add: beta_pdf_def)
qed

lemma weight_pos:
  assumes "i < 100"
  shows "0 < (posterior_grid ! i) powr (9 / 10) * (1 - posterior_grid ! i) powr (9 / 10)"
proof -
  have "real i < 100" using assms by simp
  then have "0 < posterior_grid ! i" and "posterior_grid ! i < 1"
    using assms by (simp_all add: posterior_grid_nth)
  then show ?thesis by simp
qed

lemma weight_last:
  "(posterior_grid ! 100) powr (9 / 10) * (1 - posterior_grid ! 100) powr (9 / 10) = 0"
  by (simp add: posterior_grid_nth)

lemma weight_nonneg:
  "0 \<le> (posterior_grid ! i) powr (9 / 10) * (1 - posterior_grid ! i) powr (9 / 10)"
  by simp

lemma weight_sum_pos:
  "0 < (\<Sum>j < 101. (posterior_grid ! j) powr (9 / 10) * (1 - posterior_grid ! j) powr (9 / 10))"
  by (rule sum_pos2 [where i = 0]) (simp_all add: weight_pos)

lemma pdf_sum:
  "(\<Sum>j < 101. beta_pdf B (19 / 10) (19 / 10) (posterior_grid ! j)) =
   (\<Sum>j < 101. (posterior_grid ! j) powr (9 / 10) * (1 - posterior_grid ! j) powr (9 / 10)) / B"
  by (simp add: beta_pdf_grid sum_divide_distrib)

lemma prior_spec_weights:
  assumes "B \<noteq> 0" and "i < 101"
  shows "prior_spec B i =
    (posterior_grid ! i) powr (9 / 10) * (1 - posterior_grid ! i) powr (9 / 10) /
    (\<Sum>j < 101. (posterior_grid ! j) powr (9 / 10) * (1 - posterior_grid ! j) powr (9 / 10))"
  unfolding prior_spec_def pdf_sum beta_pdf_grid [OF assms(2)] using assms(1) by simp

lemma prior_spec_pos: "B \<noteq> 0 \<Longrightarrow> i < 100 \<Longrightarrow> 0 < prior_spec B i"
  using weight_pos [of i] weight_sum_pos by (simp add: prior_spec_weights)

lemma prior_spec_nonneg: "B \<noteq> 0 \<Longrightarrow> i < 101 \<Longrightarrow> 0 \<le> prior_spec B i"
  using weight_nonneg [of i] weight_sum_pos by (simp add: prior_spec_weights)

lemma prior_spec_last: "prior_spec B 100 = 0"
  by (simp add: prior_spec_def beta_pdf_def posterior_grid_nth)

lemma np_sum_map_Fin: "np_sum (map (\<lambda>x. Fin (f x)) xs) = Fin (\<Sum>x\<leftarrow>xs. f x)"
  by (induction xs) simp_all

lemma sum_list_upt: "(\<Sum>i\<leftarrow>[0..<n]. f i) = (\<Sum>i < n. f i)"
  by (simp add: interv_sum_list_conv_sum_set_nat atLeast0LessThan)

lemma beta_prior_finite:
  assumes "B \<noteq> 0"
  shows "beta_prior B = map (\<lambda>i. Fin (prior_spec B i)) [0..<101]"
proof -
  let ?pdf = "beta_pdf B (19 / 10) (19 / 10)"
  have grid: "map (\<lambda>x. Fin (?pdf x)) posterior_grid = map (\<lambda>i. Fin (?pdf (posterior_grid ! i))) [0..<101]"
    using map_by_index [of "\<lambda>x. Fin (?pdf x)" posterior_grid] by (simp add: posterior_grid_length)
  have tot: "np_sum (map (\<lambda>i. Fin (?pdf (posterior_grid ! i))) [0..<101]) =
      Fin (\<Sum>j < 101. ?pdf (posterior_grid ! j))"
    by (simp only: np_sum_map_Fin sum_list_upt)
  have nz: "(\<Sum>j < 101. ?pdf (posterior_grid ! j)) \<noteq> 0"
    using weight_sum_pos assms by (simp add: pdf_sum)
  show ?thesis
    unfolding beta_prior_def Let_def grid tot using nz
    by (simp add: prior_spec_def)
qed

lemma beta_prior_zero: "beta_prior 0 = replicate 101 NaN"
proof -
  let ?pdf = "beta_pdf 0 (19 / 10) (19 / 10)"
  have z: "?pdf x = 0" for x by (simp add: beta_pdf_def)
  have grid: "map (\<lambda>x. Fin (?pdf x)) posterior_grid = map (\<lambda>i. Fin 0) [0..<101]"
    using map_by_index [of "\<lambda>x. Fin (?pdf x)" posterior_grid] by (simp add: posterior_grid_length z)
  have tot: "np_sum (map (\<lambda>i. Fin 0) [0..<101 :: nat]) = Fin 0"
    by (simp only: np_sum_map_Fin) simp
  show ?thesis
    unfolding beta_prior_def Let_def grid tot
    by (simp add: map_replicate_const)
qed

lemma beta_prior_length: "length (beta_prior B) = 101"
  by (simp add: beta_prior_def Let_def posterior_grid_length)

lemma np_mul_NaN_right: "np_mul x NaN = NaN"
  by (cases x) simp_all

lemma np_div_NaN_left: "np_div NaN y = NaN"
  by (cases y) simp_all

lemma np_sum_replicate_NaN: "np_sum (replicate (Suc n) NaN) = NaN"
  by simp

lemma np_multiply_Fin:
  assumes "length xs = n"
  shows "np_multiply (map Fin xs) (map (\<lambda>i. Fin (f i)) [0..<n]) =
         Inr (map (\<lambda>i. Fin (xs ! i * f i)) [0..<n])"
proof -
  have "map2 np_mul (map Fin xs) (map (\<lambda>i. Fin (f i)) [0..<n]) =
        map (\<lambda>i. Fin (xs ! i * f i)) [0..<n]"
    using assms by (intro nth_equalityI) simp_all
  then show ?thesis using assms by (simp add: np_multiply_def)
qed

lemma inferPosterior_finite:
  assumes "B \<noteq> 0" and "length xs = 101" and "likelihood im = Some (map Fin xs)"
  shows "inferPosterior B im =
    Inr (im\<lparr>prior := Some (map (\<lambda>i. Fin (prior_spec B i)) [0..<101]),
            posterior := Some (map (\<lambda>i. np_div (Fin (xs ! i * prior_spec B i))
                                   (Fin (\<Sum>j < 101. xs ! j * prior_spec B j))) [0..<101])\<rparr>)"
proof -
  have tot: "np_sum (map (\<lambda>i. Fin (xs ! i * prior_spec B i)) [0..<101]) =
      Fin (\<Sum>j < 101. xs ! j * prior_spec B j)"
    by (simp only: np_sum_map_Fin sum_list_upt)
  show ?thesis
    unfolding inferPosterior_def Let_def beta_prior_finite [OF assms(1)] assms(3) option.case
      np_multiply_Fin [OF assms(2)] sum.case tot
    by (simp add: comp_def)
qed

lemma inferPosterior_zero_constant:
  assumes "length lik = 101" and "likelihood im = Some lik"
  shows "inferPosterior 0 im =
    Inr (im\<lparr>prior := Some (beta_prior 0), posterior := Some (replicate 101 NaN)\<rparr>)"
proof -
  have "map2 np_mul lik (replicate 101 NaN) = replicate 101 NaN"
    using assms(1) by (intro nth_equalityI) (simp_all add: np_mul_NaN_right)
  then have mul: "np_multiply lik (replicate 101 NaN) = Inr (replicate 101 NaN)"
    using assms(1) by (simp add: np_multiply_def)
  have "(101 :: nat) = Suc 100" by simp
  then have tot: "np_sum (replicate 101 NaN) = NaN"
    by (simp only: np_sum_replicate_NaN)
  show ?thesis
    unfolding inferPosterior_def Let_def beta_prior_zero assms(2) option.case mul sum.case tot
    by (simp add: np_div_NaN_left)
qed

lemma inferPosterior_vanishing:
  assumes len: "length xs = 101" and lik: "likelihood im = Some (map Fin xs)"
    and van: "\<forall>i < 100. xs ! i = 0"
  shows "inferPosterior B im =
    Inr (im\<lparr>prior := Some (beta_prior B), posterior := Some (replicate 101 NaN)\<rparr>)"
proof (cases "B = 0")
  case True
  then show ?thesis using inferPosterior_zero_constant [of "map Fin xs" im] len lik by simp
next
  case False
  have prod: "xs ! i * prior_spec B i = 0" if "i < 101" for i
  proof (cases "i = 100")
    case True
    then show ?thesis by (simp add: prior_spec_last)
  next
    case False
    with that have "i < 100" by simp
    with van show ?thesis by simp
  qed
  have tot: "(\<Sum>j < 101. xs ! j * prior_spec B j) = 0"
    by (rule sum.neutral) (use prod in auto)
  have "map (\<lambda>i. np_div (Fin (xs ! i * prior_spec B i))
                                   (Fin (\<Sum>j < 101. xs ! j * prior_spec B j))) [0..<101] =
        replicate 101 NaN"
    unfolding tot by (intro nth_equalityI) (use prod in auto)
  then show ?thesis
    using inferPosterior_finite [OF False len lik] beta_prior_finite [OF False] by simp
qed

lemma one_hot_nth: "i < n \<Longrightarrow> j < n \<Longrightarrow> one_hot n i ! j = (if j = i then 1 else 0)"
  by (simp add: one_hot_def nth_list_update)

lemma one_hot_length: "length (one_hot n i) = n"
  by (simp add: one_hot_def)

lemma machine_likelihood: "likelihood (machine lik) = Some lik"
  by (simp add: machine_def)

text \<open>
  C4 (posterior normalisation), as the code has it. The prior is 0 at the last grid
  point, 1.0, and positive at the others. For a likelihood of 101 non-negative entries
  with a positive entry at an index below 100, \<open>inferPosterior\<close> raises no exception,
  the posterior is the elementwise product of likelihood and prior divided by its sum,
  and the posterior entries sum to 1.
\<close>

theorem inferPosterior_normalised:
  assumes "0 < B" and "length xs = 101" and "likelihood im = Some (map Fin xs)"
    and "\<forall>i < 101. 0 \<le> xs ! i" and "\<exists>i < 100. 0 < xs ! i"
  shows "\<exists>post. inferPosterior B im =
           Inr (im\<lparr>prior := Some (map (\<lambda>i. Fin (prior_spec B i)) [0..<101]),
                   posterior := Some post\<rparr>) \<and>
         post = map (\<lambda>i. Fin (posterior_spec B xs i)) [0..<101] \<and>
         np_sum post = Fin 1"
proof -
  let ?T = "\<Sum>j < 101. xs ! j * prior_spec B j"
  from assms(1) have B: "B \<noteq> 0" by simp
  from assms(5) obtain i0 where i0: "i0 < 100" "0 < xs ! i0" by blast
  have T: "0 < ?T"
  proof (rule sum_pos2 [where i = i0])
    show "0 < xs ! i0 * prior_spec B i0" using i0 B by (simp add: prior_spec_pos)
    show "0 \<le> xs ! j * prior_spec B j" if "j \<in> {..<101}" for j
      using that assms(4) B by (simp add: prior_spec_nonneg)
  qed (use i0 in simp_all)
  have post: "map (\<lambda>i. np_div (Fin (xs ! i * prior_spec B i)) (Fin ?T)) [0..<101] =
      map (\<lambda>i. Fin (posterior_spec B xs i)) [0..<101]"
    using T by (simp add: posterior_spec_def)
  have "(\<Sum>i < 101. posterior_spec B xs i) = ?T / ?T"
    by (simp add: posterior_spec_def sum_divide_distrib [symmetric] del: divide_self_if)
  then have "np_sum (map (\<lambda>i. Fin (posterior_spec B xs i)) [0..<101]) = Fin 1"
    using T by (simp only: np_sum_map_Fin sum_list_upt) simp
  with inferPosterior_finite [OF B assms(2,3)] post show ?thesis by simp
qed

theorem inferPosterior_normalised_witness:
  "(0 :: real) < 1 \<and> length (one_hot 101 50) = 101 \<and>
   likelihood (machine (map Fin (one_hot 101 50))) = Some (map Fin (one_hot 101 50)) \<and>
   0 < one_hot 101 50 ! 50 \<and>
   (\<exists>post. inferPosterior 1 (machine (map Fin (one_hot 101 50))) =
           Inr (machine (map Fin (one_hot 101 50))
                 \<lparr>prior := Some (map (\<lambda>i. Fin (prior_spec 1 i)) [0..<101]),
                   posterior := Some post\<rparr>) \<and>
         np_sum post = Fin 1)"
proof -
  have B: "(0 :: real) < 1" by simp
  have len: "length (one_hot 101 50) = 101" by (rule one_hot_length)
  have lik: "likelihood (machine (map Fin (one_hot 101 50))) = Some (map Fin (one_hot 101 50))"
    by (rule machine_likelihood)
  have nonneg: "\<forall>i < 101. 0 \<le> one_hot 101 50 ! i" by (simp add: one_hot_nth)
  have at: "0 < one_hot 101 50 ! 50" by (simp add: one_hot_nth)
  then have pos: "\<exists>i < 100. 0 < one_hot 101 50 ! i" by (intro exI [of _ 50]) simp
  from inferPosterior_normalised [OF B len lik nonneg pos] B len lik at
  show ?thesis by blast
qed

text \<open>
  The likelihood that is 1 at the last grid point and 0 elsewhere is not all zero, yet
  its product with the prior is: every posterior entry is NaN, whatever the constant
  of the Beta density.
\<close>

theorem prior_zero_counterexample:
  "one_hot 101 100 ! 100 = 1 \<and>
   (\<forall>B. inferPosterior B (machine (map Fin (one_hot 101 100))) =
      Inr (machine (map Fin (one_hot 101 100))
            \<lparr>prior := Some (beta_prior B), posterior := Some (replicate 101 NaN)\<rparr>)) \<and>
   np_sum (replicate 101 NaN) = NaN"
proof (intro conjI allI)
  show "one_hot 101 100 ! 100 = 1" by (simp add: one_hot_nth)
  show "inferPosterior B (machine (map Fin (one_hot 101 100))) =
      Inr (machine (map Fin (one_hot 101 100))
            \<lparr>prior := Some (beta_prior B), posterior := Some (replicate 101 NaN)\<rparr>)" for B
    by (rule inferPosterior_vanishing)
      (auto simp: one_hot_length machine_likelihood one_hot_nth)
  have "(101 :: nat) = Suc 100" by simp
  then show "np_sum (replicate 101 NaN) = NaN" by (simp only: np_sum_replicate_NaN)
qed

lemma zero_likelihood: "replicate 101 (Fin 0) = map Fin (replicate 101 0)"
  by simp

text \<open>
  C6 (degenerate likelihood), as the code has it: with a likelihood of 101 zeros
  \<open>inferPosterior\<close> raises no exception; it returns with every posterior entry NaN.
\<close>

theorem inferPosterior_degenerate:
  assumes "likelihood im = Some (replicate 101 (Fin 0))"
  shows "inferPosterior B im =
    Inr (im\<lparr>prior := Some (beta_prior B), posterior := Some (replicate 101 NaN)\<rparr>)"
  using assms inferPosterior_vanishing [of "replicate 101 0" im B] by simp

theorem inferPosterior_degenerate_witness:
  "likelihood (machine (replicate 101 (Fin 0))) = Some (replicate 101 (Fin 0)) \<and>
   inferPosterior 1 (machine (replicate 101 (Fin 0))) =
     Inr (machine (replicate 101 (Fin 0))
           \<lparr>prior := Some (beta_prior 1), posterior := Some (replicate 101 NaN)\<rparr>)"
  using inferPosterior_degenerate [of "machine (replicate 101 (Fin 0))" 1]
  by (simp add: machine_likelihood)

text \<open>
  On the machine whose likelihood list holds 101 zeros the result is no error value.
\<close>

lemma inferPosterior_zero_is_no_error:
  "\<forall>B e. inferPosterior B (machine (replicate 101 (Fin 0))) \<noteq> Inl e \<and>
     (\<exists>im. inferPosterior B (machine (replicate 101 (Fin 0))) = Inr im \<and>
        posterior im = Some (replicate 101 NaN))"
proof (intro allI)
  fix B e
  have "inferPosterior B (machine (map Fin (replicate 101 0))) =
    Inr (machine (map Fin (replicate 101 0))
          \<lparr>prior := Some (beta_prior B), posterior := Some (replicate 101 NaN)\<rparr>)"
    using inferPosterior_vanishing [of "replicate 101 0" "machine (map Fin (replicate 101 0))" B]
    by (simp add: machine_likelihood)
  then show "inferPosterior B (machine (replicate 101 (Fin 0))) \<noteq> Inl e \<and>
     (\<exists>im. inferPosterior B (machine (replicate 101 (Fin 0))) = Inr im \<and>
        posterior im = Some (replicate 101 NaN))"
    by (simp only: zero_likelihood [symmetric]) simp
qed

section \<open>The grid of the expectation\<close>

lemma expectation_loop_Fin:
  "\<forall>i \<in> set ixs. i < length ps \<and> i < length x \<Longrightarrow>
   expectation_loop (map Fin ps) x ixs (Fin acc) = Inr (Fin (acc + (\<Sum>i\<leftarrow>ixs. ps ! i * x ! i)))"
  by (induction ixs arbitrary: acc) (simp_all add: add.assoc)

lemma expectedPosterior_Fin:
  assumes "posterior im = Some (map Fin ps)" and "length ps \<le> 101"
  shows "expectedPosterior im = Inr (Fin (\<Sum>i < length ps. ps ! i * posterior_grid ! i))"
proof -
  have "expectation_loop (map Fin ps) posterior_grid [0..<length ps] (Fin 0) =
      Inr (Fin (0 + (\<Sum>i\<leftarrow>[0..<length ps]. ps ! i * posterior_grid ! i)))"
    using assms(2) by (intro expectation_loop_Fin) (simp add: posterior_grid_length)
  then show ?thesis using assms(1) by (simp add: expectedPosterior_def sum_list_upt)
qed

lemma one_hot_expectation:
  assumes "i < 101"
  shows "(\<Sum>j < 101. one_hot 101 i ! j * posterior_grid ! j) = posterior_grid ! i"
proof -
  have "(\<Sum>j < 101. one_hot 101 i ! j * posterior_grid ! j) =
        (\<Sum>j \<in> {..<101}. if j = i then posterior_grid ! j else 0)"
    using assms by (intro sum.cong refl) (simp add: one_hot_nth)
  then show ?thesis using assms by simp
qed

text \<open>
  C5 (one grid for likelihood, prior, posterior and expectation). The betting games are
  built at the biases \<open>np.arange(0, 1.01, .01)\<close>, so the game of index 50 has bias .5;
  \<open>expectedPosterior\<close> weighs the posterior with \<open>np.linspace(.01, 1.0, 101)\<close>, whose
  entry of index 50 is .505. A posterior with all its mass on the game of bias .5 has
  expectation .505.
\<close>

theorem expectation_grid_differs:
  "bias_grid ! 50 = 1 / 2 \<and> posterior_grid ! 50 = 101 / 200 \<and>
   expectedPosterior \<lparr>sims = [], likelihood = None,
       posterior = Some (map Fin (one_hot 101 50)), prior = None\<rparr> = Inr (Fin (101 / 200))"
proof -
  have "expectedPosterior \<lparr>sims = [], likelihood = None,
       posterior = Some (map Fin (one_hot 101 50)), prior = None\<rparr> =
     Inr (Fin (\<Sum>i < length (one_hot 101 50). one_hot 101 50 ! i * posterior_grid ! i))"
    by (rule expectedPosterior_Fin) (simp_all add: one_hot_length)
  moreover have "(\<Sum>i < 101. one_hot 101 50 ! i * posterior_grid ! i) = posterior_grid ! 50"
    by (rule one_hot_expectation) simp
  moreover have "posterior_grid ! 50 = 101 / 200" by (simp add: posterior_grid_nth)
  moreover have "bias_grid ! 50 = 1 / 2" by (simp add: bias_grid_map)
  ultimately show ?thesis by (simp add: one_hot_length)
qed

section \<open>valueIteration returns on the betting game\<close>

lemma Max_diff_le:
  fixes f g :: "nat \<Rightarrow> real"
  assumes "0 < n" and "\<forall>k < n. \<bar>f k - g k\<bar> \<le> c"
  shows "\<bar>Max (f ` {..<n}) - Max (g ` {..<n})\<bar> \<le> c"
proof -
  have ne: "f ` {..<n} \<noteq> {}" "g ` {..<n} \<noteq> {}" using assms(1) by auto
  have "Max (f ` {..<n}) \<le> Max (g ` {..<n}) + c"
  proof (subst Max_le_iff)
    show "\<forall>a \<in> f ` {..<n}. a \<le> Max (g ` {..<n}) + c"
    proof
      fix a assume "a \<in> f ` {..<n}"
      then obtain k where k: "k < n" "a = f k" by auto
      then have "f k \<le> g k + c" using assms(2) by (auto simp: abs_le_iff)
      moreover have "g k \<le> Max (g ` {..<n})" using k by (intro Max_ge) auto
      ultimately show "a \<le> Max (g ` {..<n}) + c" unfolding k(2) by linarith
    qed
  qed (use ne in auto)
  moreover have "Max (g ` {..<n}) \<le> Max (f ` {..<n}) + c"
  proof (subst Max_le_iff)
    show "\<forall>a \<in> g ` {..<n}. a \<le> Max (f ` {..<n}) + c"
    proof
      fix a assume "a \<in> g ` {..<n}"
      then obtain k where k: "k < n" "a = g k" by auto
      then have "g k \<le> f k + c" using assms(2) by (auto simp: abs_le_iff)
      moreover have "f k \<le> Max (f ` {..<n})" using k by (intro Max_ge) auto
      ultimately show "a \<le> Max (f ` {..<n}) + c" unfolding k(2) by linarith
    qed
  qed (use ne in auto)
  ultimately show ?thesis by (simp add: abs_le_iff)
qed

lemma q_spec_diff:
  assumes ne: "mdp_s m \<noteq> []" and sub: "substochastic m"
    and i: "i < length (mdp_s m) - 1" and k: "k < length (mdp_a m)"
    and last: "V ! (length (mdp_s m) - 1) = W ! (length (mdp_s m) - 1)"
    and close: "\<forall>j < length (mdp_s m) - 1. \<bar>V ! j - W ! j\<bar> \<le> D"
  shows "\<bar>q_spec m V i k - q_spec m W i k\<bar> \<le> D"
proof -
  let ?T = "\<lambda>j. mdp_t m ! i ! k ! j"
  from ne obtain L where n: "length (mdp_s m) = Suc L" by (cases "mdp_s m") auto
  then have L: "length (mdp_s m) - 1 = L" by simp
  from i close have D: "0 \<le> D" by (smt (verit) abs_ge_zero)
  have weights: "(\<Sum>j < L. \<bar>?T j\<bar>) \<le> 1"
    using sub i k unfolding substochastic_def L by blast
  have "q_spec m V i k - q_spec m W i k = (\<Sum>j < Suc L. ?T j * (V ! j - W ! j))"
    by (simp only: q_spec_def n sum_subtractf [symmetric] right_diff_distrib [symmetric])
  also have "\<dots> = (\<Sum>j < L. ?T j * (V ! j - W ! j))"
    using last unfolding L by simp
  finally have "\<bar>q_spec m V i k - q_spec m W i k\<bar> = \<bar>\<Sum>j < L. ?T j * (V ! j - W ! j)\<bar>"
    by simp
  also have "\<dots> \<le> (\<Sum>j < L. \<bar>?T j * (V ! j - W ! j)\<bar>)" by (rule sum_abs)
  also have "\<dots> \<le> (\<Sum>j < L. \<bar>?T j\<bar> * D)"
    using close unfolding L by (intro sum_mono) (simp add: abs_mult mult_left_mono)
  also have "\<dots> = (\<Sum>j < L. \<bar>?T j\<bar>) * D" by (simp add: sum_distrib_right)
  also have "\<dots> \<le> 1 * D"
    using weights D by (rule mult_right_mono)
  finally show ?thesis by simp
qed

lemma bellman_spec_diff:
  assumes ws: "well_shaped m" and sub: "substochastic m" and disc: "0 \<le> discount m"
    and i: "i < length (mdp_s m) - 1"
    and last: "V ! (length (mdp_s m) - 1) = W ! (length (mdp_s m) - 1)"
    and close: "\<forall>j < length (mdp_s m) - 1. \<bar>V ! j - W ! j\<bar> \<le> D"
  shows "\<bar>bellman_spec m V i - bellman_spec m W i\<bar> \<le> discount m * D"
proof -
  from ws have ne: "mdp_s m \<noteq> []" and a: "0 < length (mdp_a m)"
    by (simp_all add: well_shaped_def)
  have "\<forall>k < length (mdp_a m). \<bar>q_spec m V i k - q_spec m W i k\<bar> \<le> D"
    using q_spec_diff [OF ne sub i _ last close] by blast
  with a have "\<bar>Max ((\<lambda>k. q_spec m V i k) ` {..<length (mdp_a m)}) -
                Max ((\<lambda>k. q_spec m W i k) ` {..<length (mdp_a m)})\<bar> \<le> D"
    by (rule Max_diff_le)
  then have "discount m * \<bar>Max ((\<lambda>k. q_spec m V i k) ` {..<length (mdp_a m)}) -
                Max ((\<lambda>k. q_spec m W i k) ` {..<length (mdp_a m)})\<bar> \<le> discount m * D"
    using disc by (rule mult_left_mono)
  moreover have "bellman_spec m V i - bellman_spec m W i =
      discount m * (Max ((\<lambda>k. q_spec m V i k) ` {..<length (mdp_a m)}) -
                Max ((\<lambda>k. q_spec m W i k) ` {..<length (mdp_a m)}))"
    by (simp add: bellman_spec_def right_diff_distrib)
  ultimately show ?thesis using disc by (simp add: abs_mult)
qed

lemma sweep_prefix_contracts:
  assumes ws: "well_shaped m" and sub: "substochastic m"
    and disc: "0 \<le> discount m" "discount m \<le> 1"
    and lenV: "length V = length (mdp_s m)" and lenW: "length W = length (mdp_s m)"
    and last: "V ! (length (mdp_s m) - 1) = W ! (length (mdp_s m) - 1)"
    and close: "\<forall>j < length (mdp_s m) - 1. \<bar>V ! j - W ! j\<bar> \<le> D"
  shows "k \<le> length (mdp_s m) - 1 \<Longrightarrow>
    (\<forall>j < length (mdp_s m).
       (j < k \<longrightarrow> \<bar>fold (\<lambda>i X. X[i := bellman_spec m X i]) [0..<k] V ! j -
                     fold (\<lambda>i X. X[i := bellman_spec m X i]) [0..<k] W ! j\<bar> \<le> discount m * D) \<and>
       (k \<le> j \<longrightarrow> fold (\<lambda>i X. X[i := bellman_spec m X i]) [0..<k] V ! j = V ! j \<and>
                   fold (\<lambda>i X. X[i := bellman_spec m X i]) [0..<k] W ! j = W ! j))"
proof (induction k)
  case 0
  show ?case by simp
next
  case (Suc k)
  let ?L = "length (mdp_s m) - 1"
  let ?V = "fold (\<lambda>i X. X[i := bellman_spec m X i]) [0..<k] V"
  let ?W = "fold (\<lambda>i X. X[i := bellman_spec m X i]) [0..<k] W"
  from Suc.prems have k: "k < ?L" by simp
  then have kn: "k < length (mdp_s m)" by simp
  from Suc.IH k have IH: "\<forall>j < length (mdp_s m).
       (j < k \<longrightarrow> \<bar>?V ! j - ?W ! j\<bar> \<le> discount m * D) \<and>
       (k \<le> j \<longrightarrow> ?V ! j = V ! j \<and> ?W ! j = W ! j)" by simp
  from k close have D: "0 \<le> D" by (smt (verit) abs_ge_zero)
  then have dD: "discount m * D \<le> D" using disc(2) mult_right_mono [of "discount m" 1 D] by simp
  have lens: "length ?V = length (mdp_s m)" "length ?W = length (mdp_s m)"
    by (simp_all add: fold_update_length lenV lenW)
  have last': "?V ! ?L = ?W ! ?L" using IH k last by simp
  have close': "\<forall>j < ?L. \<bar>?V ! j - ?W ! j\<bar> \<le> D"
  proof (intro allI impI)
    fix j assume j: "j < ?L"
    show "\<bar>?V ! j - ?W ! j\<bar> \<le> D"
    proof (cases "j < k")
      case True
      with IH j have "\<bar>?V ! j - ?W ! j\<bar> \<le> discount m * D" by simp
      with dD show ?thesis by simp
    next
      case False
      with IH j have "?V ! j = V ! j" "?W ! j = W ! j" by simp_all
      with close j show ?thesis by simp
    qed
  qed
  have step: "\<bar>bellman_spec m ?V k - bellman_spec m ?W k\<bar> \<le> discount m * D"
    using ws sub disc(1) k last' close' by (rule bellman_spec_diff)
  show ?case
  proof (intro allI impI)
    fix j assume j: "j < length (mdp_s m)"
    have fV: "fold (\<lambda>i X. X[i := bellman_spec m X i]) [0..<Suc k] V = ?V[k := bellman_spec m ?V k]"
      and fW: "fold (\<lambda>i X. X[i := bellman_spec m X i]) [0..<Suc k] W = ?W[k := bellman_spec m ?W k]"
      by simp_all
    show "(j < Suc k \<longrightarrow> \<bar>fold (\<lambda>i X. X[i := bellman_spec m X i]) [0..<Suc k] V ! j -
                     fold (\<lambda>i X. X[i := bellman_spec m X i]) [0..<Suc k] W ! j\<bar> \<le> discount m * D) \<and>
       (Suc k \<le> j \<longrightarrow> fold (\<lambda>i X. X[i := bellman_spec m X i]) [0..<Suc k] V ! j = V ! j \<and>
                   fold (\<lambda>i X. X[i := bellman_spec m X i]) [0..<Suc k] W ! j = W ! j)"
      unfolding fV fW using IH j step kn lens
      by (cases "j = k") (auto simp: nth_list_update)
  qed
qed

lemma gauss_seidel_contracts:
  assumes ws: "well_shaped m" and sub: "substochastic m"
    and disc: "0 \<le> discount m" "discount m \<le> 1"
    and lenV: "length V = length (mdp_s m)" and lenW: "length W = length (mdp_s m)"
    and last: "V ! (length (mdp_s m) - 1) = W ! (length (mdp_s m) - 1)"
    and close: "\<forall>j < length (mdp_s m) - 1. \<bar>V ! j - W ! j\<bar> \<le> D"
  shows "(\<forall>j < length (mdp_s m) - 1.
           \<bar>gauss_seidel_spec m V ! j - gauss_seidel_spec m W ! j\<bar> \<le> discount m * D) \<and>
         gauss_seidel_spec m V ! (length (mdp_s m) - 1) = V ! (length (mdp_s m) - 1) \<and>
         gauss_seidel_spec m W ! (length (mdp_s m) - 1) = W ! (length (mdp_s m) - 1)"
proof -
  from ws have "mdp_s m \<noteq> []" by (simp add: well_shaped_def)
  then have L: "length (mdp_s m) - 1 < length (mdp_s m)" by (cases "mdp_s m") simp_all
  from sweep_prefix_contracts [OF assms, of "length (mdp_s m) - 1"] L
  show ?thesis unfolding gauss_seidel_spec_def by auto
qed

lemma fold_update_frame:
  "j \<notin> set ixs \<Longrightarrow> fold (\<lambda>i X. X[i := f X i]) ixs V ! j = V ! j"
  by (induction ixs arbitrary: V) auto

lemma vi_iterate_last: "vi_iterate m k ! (length (mdp_s m) - 1) = 0" if "mdp_s m \<noteq> []"
proof (induction k)
  case 0
  from that have "length (mdp_s m) - 1 < length (mdp_s m)" by (cases "mdp_s m") simp_all
  then show ?case unfolding vi_iterate_def funpow_0 by (rule nth_replicate)
next
  case (Suc k)
  have "gauss_seidel_spec m (vi_iterate m k) ! (length (mdp_s m) - 1) =
      vi_iterate m k ! (length (mdp_s m) - 1)"
    unfolding gauss_seidel_spec_def by (rule fold_update_frame) simp
  with Suc show ?case by (simp add: vi_iterate_Suc)
qed

lemma sweep_change_ge:
  assumes "i < length (mdp_s m)"
  shows "\<bar>vi_iterate m (Suc k) ! i - vi_iterate m k ! i\<bar> \<le> sweep_change m k"
  unfolding sweep_change_def using assms by (intro Max_ge) auto

lemma sweep_change_nonneg: "mdp_s m \<noteq> [] \<Longrightarrow> 0 \<le> sweep_change m k"
proof -
  assume "mdp_s m \<noteq> []"
  then have "0 < length (mdp_s m)" by simp
  from sweep_change_ge [OF this, of k] show ?thesis by linarith
qed

lemma iterate_diff:
  assumes ws: "well_shaped m" and sub: "substochastic m"
    and disc: "0 \<le> discount m" "discount m \<le> 1"
  shows "\<forall>j < length (mdp_s m) - 1.
     \<bar>vi_iterate m (Suc k) ! j - vi_iterate m k ! j\<bar> \<le> discount m ^ k * sweep_change m 0"
proof (induction k)
  case 0
  show ?case using sweep_change_ge [of _ m 0] by simp
next
  case (Suc k)
  from ws have ne: "mdp_s m \<noteq> []" by (simp add: well_shaped_def)
  have "(\<forall>j < length (mdp_s m) - 1.
           \<bar>gauss_seidel_spec m (vi_iterate m (Suc k)) ! j - gauss_seidel_spec m (vi_iterate m k) ! j\<bar>
             \<le> discount m * (discount m ^ k * sweep_change m 0)) \<and>
         gauss_seidel_spec m (vi_iterate m (Suc k)) ! (length (mdp_s m) - 1) =
           vi_iterate m (Suc k) ! (length (mdp_s m) - 1) \<and>
         gauss_seidel_spec m (vi_iterate m k) ! (length (mdp_s m) - 1) =
           vi_iterate m k ! (length (mdp_s m) - 1)"
    using ws sub disc
  proof (rule gauss_seidel_contracts)
    show "length (vi_iterate m (Suc k)) = length (mdp_s m)" by (rule vi_iterate_length)
    show "length (vi_iterate m k) = length (mdp_s m)" by (rule vi_iterate_length)
    show "vi_iterate m (Suc k) ! (length (mdp_s m) - 1) = vi_iterate m k ! (length (mdp_s m) - 1)"
      by (simp only: vi_iterate_last [OF ne])
    show "\<forall>j<length (mdp_s m) - 1.
       \<bar>vi_iterate m (Suc k) ! j - vi_iterate m k ! j\<bar> \<le> discount m ^ k * sweep_change m 0"
      by (rule Suc.IH)
  qed
  then show ?case by (simp add: vi_iterate_Suc mult.assoc)
qed

lemma sweep_change_bound:
  assumes ws: "well_shaped m" and sub: "substochastic m"
    and disc: "0 \<le> discount m" "discount m \<le> 1"
  shows "sweep_change m k \<le> discount m ^ k * sweep_change m 0"
proof -
  from ws have ne: "mdp_s m \<noteq> []" by (simp add: well_shaped_def)
  have bound: "0 \<le> discount m ^ k * sweep_change m 0"
    using disc(1) sweep_change_nonneg [OF ne] by simp
  have "\<bar>vi_iterate m (Suc k) ! i - vi_iterate m k ! i\<bar> \<le> discount m ^ k * sweep_change m 0"
    if "i < length (mdp_s m)" for i
  proof (cases "i < length (mdp_s m) - 1")
    case True
    with iterate_diff [OF assms, of k] show ?thesis by simp
  next
    case False
    with that have i: "i = length (mdp_s m) - 1" by simp
    show ?thesis unfolding i vi_iterate_last [OF ne] using bound by simp
  qed
  moreover have "0 \<in> {..<length (mdp_s m)}" using ne by simp
  then have "(\<lambda>i. \<bar>vi_iterate m (Suc k) ! i - vi_iterate m k ! i\<bar>) ` {..<length (mdp_s m)} \<noteq> {}"
    by blast
  ultimately show ?thesis unfolding sweep_change_def by (subst Max_le_iff) auto
qed

lemma some_sweep_is_small:
  assumes ws: "well_shaped m" and sub: "substochastic m"
    and disc: "0 \<le> discount m" "discount m < 1" and eps: "0 < eps"
  shows "\<exists>k. sweep_change m k \<le> eps"
proof (cases "sweep_change m 0 \<le> eps")
  case True
  then show ?thesis by blast
next
  case False
  from ws have ne: "mdp_s m \<noteq> []" by (simp add: well_shaped_def)
  from False eps have C: "0 < sweep_change m 0" by simp
  then have "0 < eps / sweep_change m 0" using eps by simp
  from real_arch_pow_inv [OF this disc(2)]
  obtain k where "discount m ^ k < eps / sweep_change m 0" by blast
  then have "discount m ^ k * sweep_change m 0 < eps" using C by (simp add: pos_less_divide_eq)
  moreover have "sweep_change m k \<le> discount m ^ k * sweep_change m 0"
    using ws sub disc by (intro sweep_change_bound) simp_all
  ultimately have "sweep_change m k \<le> eps" by simp
  then show ?thesis by blast
qed

lemma vi_loop_returns:
  assumes ws: "well_shaped m" and sub: "substochastic m"
    and disc: "0 \<le> discount m" "discount m < 1" and eps: "0 < eps"
  shows "\<exists>k. sweep_change m k \<le> eps \<and>
    vi_loop m eps (replicate (length (mdp_s m)) 0) = Some (Inr (vi_iterate m (Suc k)))"
proof -
  from some_sweep_is_small [OF assms]
  obtain k where k: "sweep_change m k \<le> eps" "\<forall>j < k. \<not> sweep_change m j \<le> eps"
    using exists_least_iff [of "\<lambda>k. sweep_change m k \<le> eps"] by blast
  have "vi_loop m eps (vi_iterate m 0) = Some (Inr (vi_iterate m (Suc (0 + k))))"
    using ws disc(1) by (rule vi_loop_stops) (use k in simp_all)
  then show ?thesis using k(1) by (auto simp: vi_iterate_def)
qed

lemma tHelper_abs:
  assumes "x < 101" and "y < 101" and "z < 101"
  shows "\<bar>tHelper (int x) (int y) (int z) ph\<bar> =
    (if y = 0 \<or> x < y then (if z = x then 1 else 0)
     else (if z = x - y then \<bar>1 - ph\<bar> else 0) +
          (if z = (if x + y \<le> 100 then x + y else 100) then \<bar>ph\<bar> else 0))"
proof (cases "y = 0 \<or> x < y")
  case True
  then show ?thesis using assms by (cases "z = x") (auto simp: tHelper_def)
next
  case False
  then have y: "0 < y" "y \<le> x" by simp_all
  show ?thesis
  proof (cases "z = x - y")
    case True
    then have "int x - int y = int z" using y by simp
    moreover have "int x + int y \<noteq> int z" using True y by linarith
    moreover have "z \<noteq> 100" using True y assms by linarith
    moreover have "z \<noteq> x + y" using True y by linarith
    ultimately show ?thesis using y True by (simp add: tHelper_def)
  next
    case nz: False
    then have n1: "int x - int y \<noteq> int z" using y by linarith
    show ?thesis
    proof (cases "x + y \<le> 100")
      case True
      show ?thesis
      proof (cases "z = x + y")
        case zz: True
        then have "int x + int y = int z" by simp
        then show ?thesis using y nz n1 True zz by (simp add: tHelper_def)
      next
        case zz: False
        then have "int x + int y \<noteq> int z" by linarith
        moreover have "\<not> (int x + int y > int z \<and> int z = 100)" using True by linarith
        ultimately show ?thesis using y nz n1 True zz by (simp add: tHelper_def)
      qed
    next
      case big: False
      then have "int x + int y \<noteq> int z" using assms(3) by linarith
      moreover have "int x + int y > int z" using big assms(3) by linarith
      ultimately show ?thesis using y nz n1 big by (simp add: tHelper_def)
    qed
  qed
qed

lemma tHelper_row_weight:
  assumes "x < 101" and "y < 101" and "0 \<le> ph" and "ph \<le> 1"
  shows "(\<Sum>z < 101. \<bar>tHelper (int x) (int y) (int z) ph\<bar>) = 1"
proof (cases "y = 0 \<or> x < y")
  case True
  have "(\<Sum>z < 101. \<bar>tHelper (int x) (int y) (int z) ph\<bar>) =
    (\<Sum>z \<in> {..<101}. if z = x then 1 else 0)"
    using assms(1,2) True by (intro sum.cong refl) (simp add: tHelper_abs)
  also have "\<dots> = 1" using assms(1) by simp
  finally show ?thesis .
next
  case False
  let ?w = "if x + y \<le> 100 then x + y else 100"
  have "(\<Sum>z < 101. \<bar>tHelper (int x) (int y) (int z) ph\<bar>) =
    (\<Sum>z \<in> {..<101}. (if z = x - y then \<bar>1 - ph\<bar> else 0) + (if z = ?w then \<bar>ph\<bar> else 0))"
    using assms(1,2) False by (intro sum.cong refl) (simp add: tHelper_abs)
  also have "\<dots> = (\<Sum>z \<in> {..<101}. if z = x - y then \<bar>1 - ph\<bar> else 0) +
      (\<Sum>z \<in> {..<101}. if z = ?w then \<bar>ph\<bar> else 0)"
    by (rule sum.distrib)
  also have "(\<Sum>z \<in> {..<101}. if z = x - y then \<bar>1 - ph\<bar> else 0) = \<bar>1 - ph\<bar>"
  proof -
    have "x - y < 101" using assms(1) by simp
    then show ?thesis by simp
  qed
  also have "(\<Sum>z \<in> {..<101}. if z = ?w then \<bar>ph\<bar> else 0) = \<bar>ph\<bar>"
    by simp
  finally show ?thesis using assms(3,4) by simp
qed

lemma death_row_weight: "(\<Sum>z < 101. \<bar>death_row 102 ! z\<bar>) = 0"
  by (rule sum.neutral) (simp add: death_row_def nth_list_update)

lemma betting_substochastic:
  assumes "0 \<le> ph" and "ph \<le> 1"
  shows "substochastic (betting_model ph)"
proof -
  have "(\<Sum>j < 101. \<bar>mdp_t (betting_model ph) ! i ! k ! j\<bar>) \<le> 1"
    if "i < 101" and "k < 101" for i k
  proof (cases "i = 0 \<or> i = 100")
    case True
    with that have "mdp_t (betting_model ph) ! i ! k = death_row 102"
      using betting_model_t_nth [of i k ph] by simp
    then show ?thesis by (simp add: death_row_weight)
  next
    case False
    with that have "mdp_t (betting_model ph) ! i ! k =
        map (\<lambda>z. tHelper (int i) (int k) (int z) ph) [0..<102]"
      using betting_model_t_nth [of i k ph] by simp
    then have "(\<Sum>j < 101. \<bar>mdp_t (betting_model ph) ! i ! k ! j\<bar>) =
        (\<Sum>j < 101. \<bar>tHelper (int i) (int k) (int j) ph\<bar>)"
      by (intro sum.cong refl) simp
    then show ?thesis using tHelper_row_weight [OF that assms] by simp
  qed
  then show ?thesis by (simp add: substochastic_def betting_sizes)
qed

lemma betting_valueIteration_returns:
  assumes "0 \<le> ph" and "ph \<le> 1"
  shows "\<exists>k. valueIteration (betting_model ph) None =
    Some (Inr (betting_model ph\<lparr>mdp_values := Some (vi_iterate (betting_model ph) (Suc k))\<rparr>))"
proof -
  have "\<exists>k. sweep_change (betting_model ph) k \<le> 1 / 10 \<and>
    vi_loop (betting_model ph) (1 / 10) (replicate (length (mdp_s (betting_model ph))) 0) =
      Some (Inr (vi_iterate (betting_model ph) (Suc k)))"
    by (rule vi_loop_returns)
      (simp_all add: betting_model_well_shaped betting_substochastic assms betting_model_discount)
  then show ?thesis
    by (auto simp: valueIteration_def well_shaped_len [OF betting_model_well_shaped])
qed

lemma BettingGame_init_returns:
  assumes "0 \<le> ph" and "ph \<le> 1"
  shows "\<exists>V pol. BettingGame_init (Some ph) epsilon_arg tau_arg =
    Some (Inr (betting_model ph\<lparr>mdp_values := Some V, mdp_policy := Some pol\<rparr>))"
proof -
  from betting_valueIteration_returns [OF assms] obtain k where
    vi: "valueIteration (betting_model ph) None =
      Some (Inr (betting_model ph\<lparr>mdp_values := Some (vi_iterate (betting_model ph) (Suc k))\<rparr>))"
    by blast
  let ?V = "vi_iterate (betting_model ph) (Suc k)"
  let ?m = "betting_model ph\<lparr>mdp_values := Some ?V\<rparr>"
  have ws: "well_shaped ?m"
    using betting_model_well_shaped [of ph] by (simp add: well_shaped_def)
  have vals: "mdp_values ?m = Some ?V" by simp
  have len: "length ?V = length (mdp_s ?m)" by (simp add: vi_iterate_length)
  have tau: "(0 :: real) < 1 / 10" by simp
  have "\<exists>pol. extractPolicy ?m (Some (1 / 10)) = Inr (?m\<lparr>mdp_policy := Some pol\<rparr>)"
    by (rule exI, rule extractPolicy_rows [OF ws vals len tau])
  then obtain pol where "extractPolicy ?m None = Inr (?m\<lparr>mdp_policy := Some pol\<rparr>)"
    by (auto simp: extractPolicy_def)
  with vi have "BettingGame_init (Some ph) epsilon_arg tau_arg =
      Some (Inr (?m\<lparr>mdp_policy := Some pol\<rparr>))"
    by (simp add: BettingGame_init_def)
  then show ?thesis by blast
qed

section \<open>The arguments of the BettingGame constructor\<close>

text \<open>
  C10 (epsilon and tau are not used). The result of \<open>BettingGame.__init__\<close> is the same
  for any two pairs of \<open>epsilon\<close> and \<open>tau\<close> arguments: it is the policy extraction with
  temperature .1 of the value iteration with epsilon .1. For a probability \<open>pHeads\<close> the
  constructor returns, with one value vector and one policy for all arguments.
\<close>

theorem BettingGame_init_ignores_epsilon_tau:
  "BettingGame_init pHeads_arg epsilon_arg tau_arg = BettingGame_init pHeads_arg epsilon_arg' tau_arg' \<and>
   BettingGame_init (Some ph) epsilon_arg tau_arg =
     (case valueIteration (betting_model ph) (Some (1 / 10)) of
        None \<Rightarrow> None
      | Some (Inl e) \<Rightarrow> Some (Inl e)
      | Some (Inr solved) \<Rightarrow> Some (extractPolicy solved (Some (1 / 10)))) \<and>
   (0 \<le> ph \<and> ph \<le> 1 \<longrightarrow>
      (\<exists>V pol. \<forall>e t. BettingGame_init (Some ph) e t =
         Some (Inr (betting_model ph\<lparr>mdp_values := Some V, mdp_policy := Some pol\<rparr>))))"
proof (intro conjI impI)
  show same: "BettingGame_init pHeads_arg epsilon_arg tau_arg =
      BettingGame_init pHeads_arg epsilon_arg' tau_arg'"
    for pHeads_arg epsilon_arg tau_arg epsilon_arg' tau_arg'
    by (simp add: BettingGame_init_def)
  have "valueIteration (betting_model ph) None = valueIteration (betting_model ph) (Some (1 / 10))"
    by (simp add: valueIteration_def)
  moreover have "extractPolicy solved None = extractPolicy solved (Some (1 / 10))"
    for solved :: betting_game
    by (simp add: extractPolicy_def)
  ultimately show "BettingGame_init (Some ph) epsilon_arg tau_arg =
     (case valueIteration (betting_model ph) (Some (1 / 10)) of
        None \<Rightarrow> None
      | Some (Inl e) \<Rightarrow> Some (Inl e)
      | Some (Inr solved) \<Rightarrow> Some (extractPolicy solved (Some (1 / 10))))"
    by (simp add: BettingGame_init_def split: option.splits sum.splits)
  assume "0 \<le> ph \<and> ph \<le> 1"
  then obtain V pol where "BettingGame_init (Some ph) None None =
      Some (Inr (betting_model ph\<lparr>mdp_values := Some V, mdp_policy := Some pol\<rparr>))"
    using BettingGame_init_returns [of ph None None] by blast
  then have "\<forall>e t. BettingGame_init (Some ph) e t =
      Some (Inr (betting_model ph\<lparr>mdp_values := Some V, mdp_policy := Some pol\<rparr>))"
    using same [of "Some ph" _ _ None None] by simp
  then show "\<exists>V pol. \<forall>e t. BettingGame_init (Some ph) e t =
         Some (Inr (betting_model ph\<lparr>mdp_values := Some V, mdp_policy := Some pol\<rparr>))"
    by blast
qed

theorem BettingGame_init_fair_coin_witness:
  "(0 :: real) \<le> 1 / 2 \<and> (1 / 2 :: real) \<le> 1 \<and>
   (\<exists>V pol. BettingGame_init (Some (1 / 2)) (Some (1 / 100)) (Some 1) =
       Some (Inr (betting_model (1 / 2)\<lparr>mdp_values := Some V, mdp_policy := Some pol\<rparr>)) \<and>
     BettingGame_init (Some (1 / 2)) (Some 5) (Some 7) =
       Some (Inr (betting_model (1 / 2)\<lparr>mdp_values := Some V, mdp_policy := Some pol\<rparr>)))"
proof -
  have "(0 :: real) \<le> 1 / 2 \<and> (1 / 2 :: real) \<le> 1" by simp
  with BettingGame_init_ignores_epsilon_tau [where ph = "1 / 2"]
  show ?thesis by blast
qed

section \<open>The sums of all transition rows of the betting game\<close>

text \<open>
  The rows that do not sum to 1: state and action with sum 101 below state 100, and the
  first two rows of the death state.
\<close>

lemma tHelper_cases:
  assumes "x < 102" and "y < 101" and "z < 102"
  shows "tHelper (int x) (int y) (int z) ph =
    (if z = x \<and> (y = 0 \<or> x < y) then 1 else 0) +
    (if z = x - y \<and> 0 < y \<and> y \<le> x then 1 - ph else 0) +
    (if z = x + y \<and> 0 < y \<and> y \<le> x then ph else 0) +
    (if z = 100 \<and> (0 < y \<and> y \<le> x \<and> 100 < x + y \<and> x - y \<noteq> 100 \<or> y = 0 \<and> x = 101)
     then ph else 0)"
proof (cases "y = 0")
  case True
  show ?thesis
  proof (cases "z = x")
    case zx: True
    then show ?thesis using True assms by (simp add: tHelper_def)
  next
    case zx: False
    then have "int x \<noteq> int z" by simp
    then show ?thesis using True zx assms by (auto simp: tHelper_def)
  qed
next
  case y0: False
  show ?thesis
  proof (cases "x < y")
    case True
    then show ?thesis using y0 by (cases "z = x") (auto simp: tHelper_def)
  next
    case False
    then have y: "0 < y" "y \<le> x" using y0 by simp_all
    show ?thesis
    proof (cases "z = x - y")
      case True
      then have "int x - int y = int z" using y by simp
      moreover have "z \<noteq> x + y" using True y by linarith
      ultimately show ?thesis using y True by (simp add: tHelper_def)
    next
      case nz: False
      then have n1: "int x - int y \<noteq> int z" using y by linarith
      show ?thesis
      proof (cases "z = x + y")
        case zz: True
        then have "int x + int y = int z" by simp
        moreover have "\<not> (z = 100 \<and> 100 < x + y)" using zz by simp
        ultimately show ?thesis using y nz n1 zz by (simp add: tHelper_def)
      next
        case zz: False
        then have n2: "int x + int y \<noteq> int z" by linarith
        show ?thesis
        proof (cases "z = 100 \<and> 100 < x + y")
          case True
          then have "int x + int y > int z" "int z = 100" by simp_all
          moreover have "x - y \<noteq> 100" using nz True by simp
          ultimately show ?thesis using y nz n1 n2 zz True by (simp add: tHelper_def)
        next
          case False
          then have "\<not> (int x + int y > int z \<and> int z = 100)" by linarith
          then show ?thesis using y nz n1 n2 zz False by (auto simp: tHelper_def)
        qed
      qed
    qed
  qed
qed

lemma sum_indicator:
  fixes v :: real
  shows "(\<Sum>z \<in> {..<n :: nat}. if z = c \<and> P then v else 0) = (if c < n \<and> P then v else 0)"
  by (cases P) simp_all

lemma tHelper_row_sum:
  assumes "x < 102" and "y < 101"
  shows "(\<Sum>z < 102. tHelper (int x) (int y) (int z) ph) =
    (if y = 0 \<or> x < y then 1 else 0) +
    (if 0 < y \<and> y \<le> x then 1 - ph else 0) +
    (if x + y < 102 \<and> 0 < y \<and> y \<le> x then ph else 0) +
    (if 0 < y \<and> y \<le> x \<and> 100 < x + y \<and> x - y \<noteq> 100 \<or> y = 0 \<and> x = 101 then ph else 0)"
proof -
  have "(\<Sum>z < 102. tHelper (int x) (int y) (int z) ph) =
    (\<Sum>z \<in> {..<102}.
      (if z = x \<and> (y = 0 \<or> x < y) then 1 else 0) +
      (if z = x - y \<and> 0 < y \<and> y \<le> x then 1 - ph else 0) +
      (if z = x + y \<and> 0 < y \<and> y \<le> x then ph else 0) +
      (if z = 100 \<and> (0 < y \<and> y \<le> x \<and> 100 < x + y \<and> x - y \<noteq> 100 \<or> y = 0 \<and> x = 101)
       then ph else 0))"
    using assms by (intro sum.cong refl tHelper_cases) simp_all
  also have "\<dots> =
    (if x < 102 \<and> (y = 0 \<or> x < y) then 1 else 0) +
    (if x - y < 102 \<and> (0 < y \<and> y \<le> x) then 1 - ph else 0) +
    (if x + y < 102 \<and> (0 < y \<and> y \<le> x) then ph else 0) +
    (if (100 :: nat) < 102 \<and> (0 < y \<and> y \<le> x \<and> 100 < x + y \<and> x - y \<noteq> 100 \<or> y = 0 \<and> x = 101)
     then ph else 0)"
    by (simp only: sum.distrib sum_indicator)
  also have "\<dots> =
    (if y = 0 \<or> x < y then 1 else 0) +
    (if 0 < y \<and> y \<le> x then 1 - ph else 0) +
    (if x + y < 102 \<and> 0 < y \<and> y \<le> x then ph else 0) +
    (if 0 < y \<and> y \<le> x \<and> 100 < x + y \<and> x - y \<noteq> 100 \<or> y = 0 \<and> x = 101 then ph else 0)"
  proof -
    have "x - y < 102" using assms(1) by simp
    then show ?thesis using assms(1) by simp
  qed
  finally show ?thesis .
qed

lemma betting_row_sum:
  assumes "s < 102" and "a < 101"
  shows "sum_list (mdp_t (betting_model ph) ! s ! a) =
    (if s = 101 \<and> a = 0 \<or> s + a = 101 \<and> a \<le> s \<and> s < 100 then 1 + ph
     else if s = 101 \<and> a = 1 then 1 - ph
     else 1)"
proof (cases "s = 0 \<or> s = 100")
  case True
  then have "mdp_t (betting_model ph) ! s ! a = death_row 102"
    using betting_model_t_nth [OF assms, of ph] by simp
  moreover have "sum_list (death_row 102) = (\<Sum>z \<in> {..<102 :: nat}. if z = 101 then 1 else 0)"
    unfolding sum_list_sum_nth death_row_length atLeast0LessThan
    by (intro sum.cong refl) (simp add: death_row_def nth_list_update)
  ultimately show ?thesis using True by auto
next
  case False
  then have "mdp_t (betting_model ph) ! s ! a = map (\<lambda>z. tHelper (int s) (int a) (int z) ph) [0..<102]"
    using betting_model_t_nth [OF assms, of ph] by simp
  then have "sum_list (mdp_t (betting_model ph) ! s ! a) =
      (\<Sum>z < 102. tHelper (int s) (int a) (int z) ph)"
    by (simp add: sum_list_upt)
  also note tHelper_row_sum [OF assms]
  finally show ?thesis using False assms by (auto split: if_splits)
qed

section \<open>The likelihood of an action in the death state\<close>

lemma BettingGame_init_dead_row:
  assumes "BettingGame_init pHeads_arg epsilon_arg tau_arg = Some (Inr bg)"
  shows "\<exists>pol. mdp_policy bg = Some pol \<and> length pol = 102 \<and>
               pol ! 101 = replicate 101 (Fin 0)"
proof -
  define ph where "ph = (case pHeads_arg of None \<Rightarrow> 1 / 2 | Some x \<Rightarrow> x)"
  from assms obtain solved where vi: "valueIteration (betting_model ph) None = Some (Inr solved)"
    and ex: "extractPolicy solved None = Inr bg"
    by (auto simp: BettingGame_init_def ph_def split: option.splits sum.splits)
  from vi obtain V where solved: "solved = betting_model ph\<lparr>mdp_values := Some V\<rparr>"
    by (auto simp: valueIteration_def split: option.splits sum.splits)
  have lens: "np_len (s_array solved) = Inr (length (mdp_s solved))"
    "np_len (a_array solved) = Inr (length (mdp_a solved))"
    by (simp_all add: solved well_shaped_len [OF betting_model_well_shaped])
  from ex obtain pol where
    loop: "extract_loop solved (1 / 10) [0..<length (mdp_s solved) - 1]
        (replicate (length (mdp_s solved)) (replicate (length (mdp_a solved)) (Fin 0))) = Inr pol"
    and bg: "bg = solved\<lparr>mdp_policy := Some pol\<rparr>"
    by (auto simp: extractPolicy_def lens split: sum.splits)
  have sizes: "length (mdp_s solved) = 102" "length (mdp_a solved) = 101"
    by (simp_all add: solved betting_sizes)
  from extract_loop_frame [OF loop] have "length pol = 102 \<and> pol ! 101 = replicate 101 (Fin 0)"
    by (simp add: sizes)
  with bg show ?thesis by simp
qed

lemma build_sims_returns:
  "\<forall>x \<in> set xs. 0 \<le> x \<and> x \<le> 1 \<Longrightarrow>
   \<exists>bgs. build_sims xs = Some (Inr bgs) \<and> length bgs = length xs \<and>
     (\<forall>bg \<in> set bgs. \<exists>pol. mdp_policy bg = Some pol \<and> length pol = 102 \<and>
                          pol ! 101 = replicate 101 (Fin 0))"
proof (induction xs)
  case Nil
  show ?case by simp
next
  case (Cons x xs)
  from Cons.prems have x: "0 \<le> x" "x \<le> 1" by simp_all
  from BettingGame_init_returns [OF x, of None None] obtain bg where
    bg: "BettingGame_init (Some x) None None = Some (Inr bg)" by blast
  from Cons obtain bgs where bgs: "build_sims xs = Some (Inr bgs)" "length bgs = length xs"
    "\<forall>bg \<in> set bgs. \<exists>pol. mdp_policy bg = Some pol \<and> length pol = 102 \<and>
                          pol ! 101 = replicate 101 (Fin 0)"
    by auto
  from bg bgs BettingGame_init_dead_row [OF bg] show ?case by simp
qed

lemma np_index_zero: "np_index xs 0 = (if xs = [] then Inl IndexError else Inr (xs ! 0))"
  by (simp add: np_index_def)

lemma likelihood_list_dead_state:
  "\<forall>bg \<in> set bgs. \<exists>pol. mdp_policy bg = Some pol \<and> length pol = 102 \<and>
                          pol ! 101 = replicate 101 (Fin 0) \<Longrightarrow>
   likelihood_list bgs 101 0 = Inr (replicate (length bgs) (Fin 0))"
proof (induction bgs)
  case Nil
  show ?case by simp
next
  case (Cons bg bgs)
  then obtain pol where pol: "mdp_policy bg = Some pol" "length pol = 102"
    "pol ! 101 = replicate 101 (Fin 0)" by auto
  have "np_index pol 101 = Inr (replicate 101 (Fin 0))"
    using pol by (simp add: np_index_numeral)
  moreover have "np_index (replicate 101 (Fin 0 :: npfloat)) 0 = Inr (Fin 0)"
    by (simp add: np_index_zero)
  moreover have "likelihood_list bgs 101 0 = Inr (replicate (length bgs) (Fin 0))"
    using Cons by simp
  ultimately show ?case using pol(1) by simp
qed

lemma bias_grid_unit: "\<forall>x \<in> set bias_grid. 0 \<le> x \<and> x \<le> 1"
  by (auto simp: bias_grid_map)

lemma bias_grid_length: "length bias_grid = 101"
  by (simp add: bias_grid_map)

lemma InferenceMachine_init_returns:
  "\<exists>bgs. InferenceMachine_init =
       Some (Inr \<lparr>sims = bgs, likelihood = None, posterior = None, prior = None\<rparr>) \<and>
     length bgs = 101 \<and>
     likelihood_list bgs 101 0 = Inr (replicate 101 (Fin 0))"
proof -
  from build_sims_returns [OF bias_grid_unit] obtain bgs where
    bgs: "build_sims bias_grid = Some (Inr bgs)" "length bgs = length bias_grid"
    "\<forall>bg \<in> set bgs. \<exists>pol. mdp_policy bg = Some pol \<and> length pol = 102 \<and>
                          pol ! 101 = replicate 101 (Fin 0)"
    by blast
  from likelihood_list_dead_state [OF bgs(3)] bgs(1,2) show ?thesis
    by (simp add: InferenceMachine_init_def buildBiasEngine_def bias_grid_length)
qed

text \<open>
  The whole run: \<open>InferenceMachine()\<close> returns; \<open>inferLikelihood(101, 0)\<close> reads the policy
  rows of the death state, which \<open>extractPolicy\<close> left all zero, so the likelihood is 101
  zeros; \<open>inferPosterior\<close> then returns, with no exception, a posterior of 101 NaN.
\<close>

theorem dead_state_evidence_counterexample:
  "\<exists>im. InferenceMachine_init = Some (Inr im) \<and>
     inferLikelihood im 101 0 = Inr (im\<lparr>likelihood := Some (replicate 101 (Fin 0))\<rparr>) \<and>
     (\<forall>B. inferPosterior B (im\<lparr>likelihood := Some (replicate 101 (Fin 0))\<rparr>) =
        Inr (im\<lparr>likelihood := Some (replicate 101 (Fin 0)), prior := Some (beta_prior B),
                posterior := Some (replicate 101 NaN)\<rparr>))"
proof -
  from InferenceMachine_init_returns obtain bgs where
    init: "InferenceMachine_init =
       Some (Inr \<lparr>sims = bgs, likelihood = None, posterior = None, prior = None\<rparr>)"
    and lik: "likelihood_list bgs 101 0 = Inr (replicate 101 (Fin 0))"
    by blast
  let ?im = "\<lparr>sims = bgs, likelihood = None, posterior = None, prior = None\<rparr>"
  have "inferLikelihood ?im 101 0 = Inr (?im\<lparr>likelihood := Some (replicate 101 (Fin 0))\<rparr>)"
    using lik by (simp add: inferLikelihood_def)
  moreover have "inferPosterior B (?im\<lparr>likelihood := Some (replicate 101 (Fin 0))\<rparr>) =
        Inr (?im\<lparr>likelihood := Some (replicate 101 (Fin 0)), prior := Some (beta_prior B),
                posterior := Some (replicate 101 NaN)\<rparr>)" for B
    using inferPosterior_vanishing [of "replicate 101 0"
        "?im\<lparr>likelihood := Some (replicate 101 (Fin 0))\<rparr>" B]
    by simp
  ultimately show ?thesis using init by blast
qed

section \<open>The game that the constructor returns\<close>

text \<open>
  For a coin bias in [0, 1] the constructor returns the model of \<open>setBettingGame\<close> with the
  values of some sweep of the value iteration and the softmax rows of these values. The
  end game states 0 and 100 lead to the death state alone, so their values are their
  rewards and their policy rows are uniform.
\<close>

lemma BettingGame_init_result:
  assumes "0 \<le> ph" and "ph \<le> 1"
  shows "\<exists>k. BettingGame_init (Some ph) epsilon_arg tau_arg =
    Some (Inr (betting_model ph
      \<lparr>mdp_values := Some (vi_iterate (betting_model ph) (Suc k)),
        mdp_policy := Some (map (\<lambda>i. if i < 101
          then map (\<lambda>a. Fin (softmax_spec (1 / 10)
                 (action_value_spec (betting_model ph) (vi_iterate (betting_model ph) (Suc k)) i) 101 a))
               [0..<101]
          else replicate 101 (Fin 0)) [0..<102])\<rparr>))"
proof -
  from betting_valueIteration_returns [OF assms] obtain k where
    vi: "valueIteration (betting_model ph) None =
      Some (Inr (betting_model ph\<lparr>mdp_values := Some (vi_iterate (betting_model ph) (Suc k))\<rparr>))"
    by blast
  let ?V = "vi_iterate (betting_model ph) (Suc k)"
  let ?m = "betting_model ph\<lparr>mdp_values := Some ?V\<rparr>"
  have ws: "well_shaped ?m"
    using betting_model_well_shaped [of ph] by (simp add: well_shaped_def)
  have vals: "mdp_values ?m = Some ?V" by simp
  have len: "length ?V = length (mdp_s ?m)" by (simp add: vi_iterate_length)
  have tau: "(0 :: real) < 1 / 10" by simp
  have av: "action_value_spec ?m W i = action_value_spec (betting_model ph) W i" for W i
    by (rule ext) (simp add: action_value_spec_def q_spec_def)
  have "extractPolicy ?m None = extractPolicy ?m (Some (1 / 10))"
    by (simp add: extractPolicy_def)
  also note extractPolicy_rows [OF ws vals len tau]
  finally have "extractPolicy ?m None =
    Inr (?m\<lparr>mdp_policy := Some (map (\<lambda>i. if i < 101
          then map (\<lambda>a. Fin (softmax_spec (1 / 10) (action_value_spec (betting_model ph) ?V i) 101 a))
               [0..<101]
          else replicate 101 (Fin 0)) [0..<102])\<rparr>)"
    by (simp add: betting_sizes av)
  with vi have "BettingGame_init (Some ph) epsilon_arg tau_arg =
    Some (Inr (?m\<lparr>mdp_policy := Some (map (\<lambda>i. if i < 101
          then map (\<lambda>a. Fin (softmax_spec (1 / 10) (action_value_spec (betting_model ph) ?V i) 101 a))
               [0..<101]
          else replicate 101 (Fin 0)) [0..<102])\<rparr>))"
    by (simp add: BettingGame_init_def)
  then show ?thesis by blast
qed

lemma death_row_dot:
  assumes "length W = 102"
  shows "(\<Sum>j < 102. death_row 102 ! j * W ! j) = W ! 101"
proof -
  have "(\<Sum>j < 102. death_row 102 ! j * W ! j) = (\<Sum>j \<in> {..<102}. if j = 101 then W ! j else 0)"
    by (intro sum.cong refl) (simp add: death_row_def nth_list_update)
  then show ?thesis by simp
qed

lemma end_state_q:
  assumes "i = 0 \<or> i = 100" and "a < 101" and "length W = 102"
  shows "q_spec (betting_model ph) W i a = W ! 101"
proof -
  from assms(1) have "i < 102" by auto
  then have "mdp_t (betting_model ph) ! i ! a = death_row 102"
    using betting_model_t_nth [of i a ph] assms(1,2) by simp
  then show ?thesis by (simp add: q_spec_def betting_sizes death_row_dot [OF assms(3)])
qed

lemma end_state_bellman:
  assumes "i = 0 \<or> i = 100" and "length W = 102"
  shows "bellman_spec (betting_model ph) W i = mdp_r (betting_model ph) ! i + 95 / 100 * W ! 101"
proof -
  have "(\<lambda>k. q_spec (betting_model ph) W i k) ` {..<101 :: nat} = (\<lambda>k. W ! 101) ` {..<101 :: nat}"
    by (rule image_cong) (simp_all add: end_state_q [OF assms(1) _ assms(2)])
  then show ?thesis
    by (simp add: bellman_spec_def betting_sizes betting_model_discount Max_constant)
qed

lemma gauss_seidel_nth:
  assumes "i < length (mdp_s m) - 1" and "length W = length (mdp_s m)"
  shows "gauss_seidel_spec m W ! i =
         bellman_spec m (fold (\<lambda>i X. X[i := bellman_spec m X i]) [0..<i] W) i"
proof -
  let ?f = "\<lambda>i X. X[i := bellman_spec m X i]"
  have "[0..<i + (length (mdp_s m) - 1 - i)] = [0..<i] @ [i..<i + (length (mdp_s m) - 1 - i)]"
    by (rule upt_add_eq_append) simp
  then have "[0..<length (mdp_s m) - 1] = [0..<i] @ [i..<length (mdp_s m) - 1]"
    using assms(1) by simp
  then have split: "[0..<length (mdp_s m) - 1] = [0..<i] @ i # [Suc i..<length (mdp_s m) - 1]"
    using assms(1) by (simp add: upt_conv_Cons)
  have "gauss_seidel_spec m W = fold ?f [Suc i..<length (mdp_s m) - 1] (?f i (fold ?f [0..<i] W))"
    unfolding gauss_seidel_spec_def by (subst split) simp
  then have "gauss_seidel_spec m W ! i = ?f i (fold ?f [0..<i] W) ! i"
    by (simp add: fold_update_frame)
  moreover have "i < length (fold ?f [0..<i] W)"
    using assms by (simp add: fold_update_length)
  ultimately show ?thesis by simp
qed

lemma betting_end_state_values:
  assumes "i = 0 \<or> i = 100"
  shows "vi_iterate (betting_model ph) (Suc k) ! i = mdp_r (betting_model ph) ! i"
proof -
  let ?bg = "betting_model ph"
  let ?W = "vi_iterate ?bg k"
  let ?X = "fold (\<lambda>i X. X[i := bellman_spec ?bg X i]) [0..<i] ?W"
  have ne: "mdp_s ?bg \<noteq> []" using betting_sizes(1) [of ph] by auto
  have lenW: "length ?W = 102" by (simp add: vi_iterate_length betting_sizes)
  have i: "i < length (mdp_s ?bg) - 1" using assms by (auto simp: betting_sizes)
  have lenX: "length ?X = 102" by (simp add: fold_update_length lenW)
  have "?X ! 101 = ?W ! 101" using assms by (intro fold_update_frame) auto
  also have "?W ! 101 = 0" using vi_iterate_last [OF ne, of k] by (simp add: betting_sizes)
  finally have X: "?X ! 101 = 0" .
  have "vi_iterate ?bg (Suc k) ! i = bellman_spec ?bg ?X i"
    unfolding vi_iterate_Suc using i by (rule gauss_seidel_nth) (simp add: lenW betting_sizes)
  also have "\<dots> = mdp_r ?bg ! i" using end_state_bellman [OF assms lenX] X by simp
  finally show ?thesis .
qed

lemma betting_end_state_policy:
  assumes "i = 0 \<or> i = 100" and "length W = 102" and "a < 101"
  shows "softmax_spec (1 / 10) (action_value_spec (betting_model ph) W i) 101 a = 1 / 101"
proof -
  have av: "action_value_spec (betting_model ph) W i k =
      mdp_r (betting_model ph) ! i + 95 / 100 * W ! 101" if "k < 101" for k
    by (simp add: action_value_spec_def betting_model_discount end_state_q [OF assms(1) that assms(2)])
  define c where "c = mdp_r (betting_model ph) ! i + 95 / 100 * W ! 101"
  have img: "action_value_spec (betting_model ph) W i ` {..<101 :: nat} = (\<lambda>k. c) ` {..<101 :: nat}"
    by (rule image_cong) (simp_all add: av c_def)
  have mx: "Max (action_value_spec (betting_model ph) W i ` {..<101 :: nat}) = c"
    unfolding img by (simp add: Max_constant)
  have "(\<Sum>l < 101. exp ((action_value_spec (betting_model ph) W i l - c) / (1 / 10))) =
        (\<Sum>l \<in> {..<101 :: nat}. 1)"
    by (intro sum.cong refl) (simp add: av c_def)
  then show ?thesis using assms(3) by (simp add: softmax_spec_def mx av c_def)
qed

lemma BettingGame_init_arrays:
  assumes "BettingGame_init (Some ph) epsilon_arg tau_arg = Some (Inr bg)"
  shows "mdp_s bg = mdp_s (betting_model ph) \<and> mdp_a bg = mdp_a (betting_model ph) \<and>
         mdp_r bg = mdp_r (betting_model ph) \<and> mdp_t bg = mdp_t (betting_model ph)"
proof -
  from assms obtain solved where vi: "valueIteration (betting_model ph) None = Some (Inr solved)"
    and ex: "extractPolicy solved None = Inr bg"
    by (auto simp: BettingGame_init_def split: option.splits sum.splits)
  from vi obtain V where "solved = betting_model ph\<lparr>mdp_values := Some V\<rparr>"
    by (auto simp: valueIteration_def split: option.splits sum.splits)
  moreover from ex obtain pol where "bg = solved\<lparr>mdp_policy := Some pol\<rparr>"
    by (auto simp: extractPolicy_def split: sum.splits)
  ultimately show ?thesis by simp
qed

text \<open>
  C1 (every transition row T(s, a, .) of the constructed game is a probability
  distribution over next states). In \<open>BettingGame(0.5)\<close> the row of state 51 and bet 50 sums
  to 3/2: winning leads to 101, the index of the death state, which \<open>tHelper\<close> fills
  through the branch \<open>x + y is z\<close>, and the edge case for winnings above 100 fills next
  state 100 as well. Lemma \<open>betting_row_sum\<close> gives the sum of every row.
\<close>

theorem constructed_row_51_50_sum:
  "\<exists>bg row. BettingGame_init (Some (1 / 2)) None None = Some (Inr bg) \<and>
     getTransitionStatesAndProbs bg 51 50 = Inr row \<and> sum_list row = 3 / 2"
proof -
  have "(0 :: real) \<le> 1 / 2" "(1 / 2 :: real) \<le> 1" by simp_all
  from BettingGame_init_returns [OF this, of None None] obtain bg where
    bg: "BettingGame_init (Some (1 / 2)) None None = Some (Inr bg)" by blast
  from BettingGame_init_arrays [OF bg]
  have "getTransitionStatesAndProbs bg 51 50 = getTransitionStatesAndProbs (betting_model (1 / 2)) 51 50"
    by (simp add: getTransitionStatesAndProbs_def)
  then have "getTransitionStatesAndProbs bg 51 50 =
      Inr (map (\<lambda>z. tHelper 51 50 (int z) (1 / 2)) [0..<102])"
    by (simp add: row_51_50)
  moreover have "sum_list (map (\<lambda>z. tHelper 51 50 (int z) (1 / 2)) [0..<102]) = 3 / 2"
    by (simp only: sum_51_50)
  ultimately show ?thesis using bg by blast
qed

text \<open>
  C9 (the reward is defined for every state), as the code has it: in the game that the
  constructor returns the state array has 102 entries and the reward array 101, and
  \<open>getReward\<close> returns -10 for state 0, 100 for state 100, 0 for the states between, and
  raises IndexError for the death state 101.
\<close>

theorem constructed_reward_below_dead_state:
  assumes "BettingGame_init (Some ph) epsilon_arg tau_arg = Some (Inr bg)"
  shows "length (mdp_r bg) = 101 \<and> length (mdp_s bg) = 102 \<and>
   (\<forall>st \<in> set (mdp_s bg).
      getReward bg st =
        (if st = 101 then Inl IndexError
         else Inr (if st = 0 then - 10 else if st = 100 then 100 else 0)))"
proof -
  from BettingGame_init_arrays [OF assms]
  have s: "mdp_s bg = mdp_s (betting_model ph)"
    and r: "getReward bg = getReward (betting_model ph)" "mdp_r bg = mdp_r (betting_model ph)"
    by (simp_all add: getReward_def fun_eq_iff)
  show ?thesis unfolding s r by (rule betting_model_rewards)
qed

theorem constructed_reward_witness:
  "\<exists>bg. BettingGame_init (Some (1 / 2)) None None = Some (Inr bg) \<and>
     100 \<in> set (mdp_s bg) \<and> getReward bg 100 = Inr 100"
proof -
  have "(0 :: real) \<le> 1 / 2" "(1 / 2 :: real) \<le> 1" by simp_all
  from BettingGame_init_returns [OF this, of None None] obtain bg where
    bg: "BettingGame_init (Some (1 / 2)) None None = Some (Inr bg)" by blast
  from constructed_reward_below_dead_state [OF bg]
  have len: "length (mdp_s bg) = 102"
    and all: "\<forall>st \<in> set (mdp_s bg). getReward bg st =
        (if st = 101 then Inl IndexError
         else Inr (if st = 0 then - 10 else if st = 100 then 100 else 0))"
    by blast+
  have mem: "(100 :: int) \<in> set (mdp_s bg)"
    using BettingGame_init_arrays [OF bg] by (simp add: betting_model_s np_arange_def image_iff)
  with all have "getReward bg 100 =
        (if (100 :: int) = 101 then Inl IndexError
         else Inr (if (100 :: int) = 0 then - 10 else if (100 :: int) = 100 then 100 else 0))"
    by blast
  with bg mem show ?thesis by auto
qed

text \<open>
  The death state 101 is a state of \<open>BettingGame(0.5)\<close> and \<open>getReward(101)\<close> raises
  IndexError.
\<close>

theorem constructed_dead_state_reward_counterexample:
  "\<exists>bg. BettingGame_init (Some (1 / 2)) None None = Some (Inr bg) \<and>
     101 \<in> set (mdp_s bg) \<and> getReward bg 101 = Inl IndexError"
proof -
  have "(0 :: real) \<le> 1 / 2" "(1 / 2 :: real) \<le> 1" by simp_all
  from BettingGame_init_returns [OF this, of None None] obtain bg where
    bg: "BettingGame_init (Some (1 / 2)) None None = Some (Inr bg)" by blast
  from BettingGame_init_arrays [OF bg]
  have "getReward bg 101 = Inl IndexError"
    by (simp add: getReward_def np_index_numeral betting_model_r)
  moreover have "(101 :: int) \<in> set (mdp_s bg)"
    using BettingGame_init_arrays [OF bg] by (simp add: betting_model_s np_arange_def image_iff)
  ultimately show ?thesis using bg by blast
qed

text \<open>
  The end game states 0 and 100 of \<open>BettingGame(0.5)\<close> are inside both loops: the value
  iteration has set their values to -10 and 100, and \<open>extractPolicy\<close> has given each the
  uniform row 1/101.
\<close>

theorem constructed_end_states_counterexample:
  "\<exists>bg V pol. BettingGame_init (Some (1 / 2)) None None = Some (Inr bg) \<and>
     mdp_values bg = Some V \<and> V ! 0 = - 10 \<and> V ! 100 = 100 \<and>
     mdp_policy bg = Some pol \<and>
     pol ! 0 = replicate 101 (Fin (1 / 101)) \<and> pol ! 100 = replicate 101 (Fin (1 / 101))"
proof -
  let ?bg = "betting_model (1 / 2)"
  have "(0 :: real) \<le> 1 / 2" "(1 / 2 :: real) \<le> 1" by simp_all
  from BettingGame_init_result [OF this, of None None] obtain k where
    init: "BettingGame_init (Some (1 / 2)) None None =
      Some (Inr (?bg\<lparr>mdp_values := Some (vi_iterate ?bg (Suc k)),
        mdp_policy := Some (map (\<lambda>i. if i < 101
          then map (\<lambda>a. Fin (softmax_spec (1 / 10)
                 (action_value_spec ?bg (vi_iterate ?bg (Suc k)) i) 101 a)) [0..<101]
          else replicate 101 (Fin 0)) [0..<102])\<rparr>))"
    by blast
  let ?V = "vi_iterate ?bg (Suc k)"
  let ?pol = "map (\<lambda>i. if i < 101
          then map (\<lambda>a. Fin (softmax_spec (1 / 10) (action_value_spec ?bg ?V i) 101 a)) [0..<101]
          else replicate 101 (Fin 0)) [0..<102]"
  have lenV: "length ?V = 102" by (simp add: vi_iterate_length betting_sizes)
  have v0: "?V ! 0 = - 10" and v100: "?V ! 100 = 100"
    by (simp_all add: betting_end_state_values betting_model_r)
  have row: "map (\<lambda>a. Fin (softmax_spec (1 / 10) (action_value_spec ?bg ?V i) 101 a)) [0..<101] =
      replicate 101 (Fin (1 / 101))" if "i = 0 \<or> i = 100" for i
    by (rule nth_equalityI) (simp_all add: betting_end_state_policy [OF that lenV])
  have p0: "?pol ! 0 = replicate 101 (Fin (1 / 101))" using row [of 0] by simp
  have p100: "?pol ! 100 = replicate 101 (Fin (1 / 101))" using row [of 100] by simp
  from init v0 v100 p0 p100 show ?thesis by (intro exI [of _ "?bg\<lparr>mdp_values := Some ?V, mdp_policy := Some ?pol\<rparr>"] exI [of _ ?V] exI [of _ ?pol]) simp
qed

end
